theory Spec2Isabelle
  imports Main "HOL-Library.Sublist" "HOL-Library.Char_ord" "HOL-Library.List_Lexorder"
begin

section \<open>The rule compiler \<^verbatim>\<open>rulegen.go\<close>\<close>

text \<open>
  The program reads rewrite rules of the form \<^verbatim>\<open>sexpr [&& cond] -> sexpr\<close> and writes the
  text of a Go function that applies them to a \<^verbatim>\<open>*Value\<close>.  Go strings are byte strings and
  are modelled as \<^typ>\<open>string\<close>; every \<^verbatim>\<open>fmt.Fprintf(w, ...)\<close> appends one element to the
  list of written chunks, so that the contents of the buffer \<^verbatim>\<open>w\<close> is the concatenation of
  that list.  Every way in which the run can abort is a value of \<open>error\<close>.  The counters of
  the program (\<^verbatim>\<open>d\<close>, \<^verbatim>\<open>argnum\<close>, \<^verbatim>\<open>alloc\<close>, \<^verbatim>\<open>rulenum\<close>) are Go \<^verbatim>\<open>int\<close>s that count bytes, arguments
  and rules of the input; they stay far below the 64-bit range and are modelled as \<open>int\<close>
  and \<open>nat\<close>.
\<close>

subsection \<open>Aborts\<close>

datatype error =
    NoArrow string
      \<comment> \<open>\<^verbatim>\<open>log.Fatalf("no arrow in rule %s", rule)\<close>: the spec's MalformedRule\<close>
  | Imbalanced string
      \<comment> \<open>\<^verbatim>\<open>panic("imbalanced expression: " + s)\<close>: the spec's MalformedExpression\<close>
  | IndexOutOfRange
      \<comment> \<open>the Go runtime panic of \<^verbatim>\<open>x[i]\<close> with \<^verbatim>\<open>i >= len(x)\<close>\<close>
  | SliceOutOfRange
      \<comment> \<open>the Go runtime panic of \<^verbatim>\<open>x[i:j]\<close> with \<^verbatim>\<open>i > j\<close> or \<^verbatim>\<open>j > len(x)\<close>\<close>

subsection \<open>The functions of package \<^verbatim>\<open>strings\<close> that the program calls\<close>

text \<open>
  \<^verbatim>\<open>strings.TrimSpace\<close> removes leading and trailing white space as defined by Unicode
  (\<^verbatim>\<open>unicode.IsSpace\<close>).  \<open>space_runes\<close> lists the UTF-8 encodings of those runes:
  the six ASCII ones, U+0085, U+00A0, U+1680, U+2000 to U+200A, U+2028, U+2029, U+202F,
  U+205F and U+3000.
\<close>

definition space_runes :: "string list" where
  "space_runes =
    [[CHR 0x09], [CHR 0x0A], [CHR 0x0B], [CHR 0x0C], [CHR 0x0D], [CHR 0x20],
     [CHR 0xC2, CHR 0x85], [CHR 0xC2, CHR 0xA0],
     [CHR 0xE1, CHR 0x9A, CHR 0x80],
     [CHR 0xE2, CHR 0x80, CHR 0x80], [CHR 0xE2, CHR 0x80, CHR 0x81],
     [CHR 0xE2, CHR 0x80, CHR 0x82], [CHR 0xE2, CHR 0x80, CHR 0x83],
     [CHR 0xE2, CHR 0x80, CHR 0x84], [CHR 0xE2, CHR 0x80, CHR 0x85],
     [CHR 0xE2, CHR 0x80, CHR 0x86], [CHR 0xE2, CHR 0x80, CHR 0x87],
     [CHR 0xE2, CHR 0x80, CHR 0x88], [CHR 0xE2, CHR 0x80, CHR 0x89],
     [CHR 0xE2, CHR 0x80, CHR 0x8A],
     [CHR 0xE2, CHR 0x80, CHR 0xA8], [CHR 0xE2, CHR 0x80, CHR 0xA9],
     [CHR 0xE2, CHR 0x80, CHR 0xAF],
     [CHR 0xE2, CHR 0x81, CHR 0x9F],
     [CHR 0xE3, CHR 0x80, CHR 0x80]]"

definition leading_space :: "string \<Rightarrow> nat" where
  \<comment> \<open>the width in bytes of the white-space rune at the front of \<open>s\<close>, 0 when there is none\<close>
  "leading_space s =
    (case find (\<lambda>e. prefix e s) space_runes of None \<Rightarrow> 0 | Some e \<Rightarrow> length e)"

definition trailing_space :: "string \<Rightarrow> nat" where
  \<comment> \<open>the width in bytes of the white-space rune at the back of \<open>s\<close>, 0 when there is none\<close>
  "trailing_space s =
    (case find (\<lambda>e. prefix (rev e) (rev s)) space_runes of None \<Rightarrow> 0 | Some e \<Rightarrow> length e)"

lemma leading_space_le: "leading_space s \<le> length s"
  by (auto simp: leading_space_def find_Some_iff prefix_def split: option.splits)

lemma trailing_space_le: "trailing_space s \<le> length s"
proof (cases "find (\<lambda>e. prefix (rev e) (rev s)) space_runes")
  case None
  then show ?thesis by (simp add: trailing_space_def)
next
  case (Some e)
  then have "prefix (rev e) (rev s)" by (auto simp: find_Some_iff)
  then have "length (rev e) \<le> length (rev s)" by (rule prefix_length_le)
  with Some show ?thesis by (simp add: trailing_space_def)
qed

function TrimLeft :: "string \<Rightarrow> string" where
  "TrimLeft s = (if leading_space s = 0 then s else TrimLeft (drop (leading_space s) s))"
  by pat_completeness auto
termination
proof (relation "measure length")
  fix s assume "leading_space s \<noteq> 0"
  moreover have "leading_space s \<le> length s" by (rule leading_space_le)
  ultimately show "(drop (leading_space s) s, s) \<in> measure length" by simp
qed simp

function TrimRight :: "string \<Rightarrow> string" where
  "TrimRight s =
    (if trailing_space s = 0 then s else TrimRight (take (length s - trailing_space s) s))"
  by pat_completeness auto
termination
proof (relation "measure length")
  fix s assume "trailing_space s \<noteq> 0"
  moreover have "trailing_space s \<le> length s" by (rule trailing_space_le)
  ultimately show "(take (length s - trailing_space s) s, s) \<in> measure length" by simp
qed simp

declare TrimLeft.simps [simp del] TrimRight.simps [simp del]

definition TrimSpace :: "string \<Rightarrow> string" where
  "TrimSpace s = TrimRight (TrimLeft s)"

text \<open>
  \<^verbatim>\<open>strings.Trim(s, cutset)\<close> removes the leading and trailing runes that occur in
  \<open>cutset\<close>.  The program's cutsets are ASCII, so a byte of \<open>s\<close> is removed exactly when it
  is one of the cutset's bytes.
\<close>

definition Trim :: "string \<Rightarrow> string \<Rightarrow> string" where
  "Trim s cutset =
    rev (dropWhile (\<lambda>c. c \<in> set cutset) (rev (dropWhile (\<lambda>c. c \<in> set cutset) s)))"

text \<open>
  \<^verbatim>\<open>strings.Index(s, sep)\<close> is the index of the first occurrence of \<open>sep\<close> in \<open>s\<close>;
  Go's \<^verbatim>\<open>-1\<close> for no occurrence is \<open>None\<close>.
\<close>

fun Index :: "string \<Rightarrow> string \<Rightarrow> nat option" where
  "Index [] sep = (if sep = [] then Some 0 else None)"
| "Index (c # cs) sep =
    (if prefix sep (c # cs) then Some 0 else map_option Suc (Index cs sep))"

text \<open>
  \<^verbatim>\<open>strings.Split(s, sep)\<close> cuts \<open>s\<close> at every occurrence of \<open>sep\<close>, found from left to
  right without overlap.  The program calls it with the separators \<^verbatim>\<open>" "\<close> and \<^verbatim>\<open>"->"\<close>;
  for the empty separator Go returns the UTF-8 sequences of \<open>s\<close>, which is not modelled
  (the model returns \<open>s\<close> whole there).
\<close>

lemma Index_le: "Index s sep = Some i \<Longrightarrow> i + length sep \<le> length s"
proof (induction s arbitrary: i)
  case Nil
  then show ?case by (simp split: if_splits)
next
  case (Cons c cs)
  show ?case
  proof (cases "prefix sep (c # cs)")
    case True
    then have "length sep \<le> length (c # cs)" by (rule prefix_length_le)
    with True Cons.prems show ?thesis by simp
  next
    case False
    with Cons.prems obtain j where "Index cs sep = Some j" "i = Suc j" by auto
    with Cons.IH show ?thesis by fastforce
  qed
qed

function Split :: "string \<Rightarrow> string \<Rightarrow> string list" where
  "Split s sep =
    (if sep = [] then [s]
     else case Index s sep of
       None \<Rightarrow> [s]
     | Some i \<Rightarrow> take i s # Split (drop (i + length sep) s) sep)"
  by pat_completeness auto
termination
proof (relation "measure (\<lambda>(s, sep). length s)")
  fix s sep :: string and i
  assume "sep \<noteq> []" "Index s sep = Some i"
  then have "i + length sep \<le> length s" "0 < length sep"
    using Index_le [of s sep i] by simp_all
  then have "length (drop (i + length sep) s) < length s"
    unfolding length_drop by linarith
  then show "((drop (i + length sep) s, sep), (s, sep)) \<in> measure (\<lambda>(s, sep). length s)"
    by simp
qed simp

declare Split.simps [simp del]

subsection \<open>The tokenizer \<^verbatim>\<open>split\<close>\<close>

text \<open>
  The inner \<^verbatim>\<open>for i := 0; i < len(s); i++\<close> loop of \<^verbatim>\<open>split\<close>.  \<open>scan cs i d nonsp\<close> runs
  it from index \<open>i\<close>, where \<open>cs\<close> is \<^verbatim>\<open>s[i:]\<close>: it ends either at the index of a blank where
  the source cuts (\<^verbatim>\<open>continue outer\<close>), or at the end of the string with the final values
  of \<^verbatim>\<open>d\<close> and \<^verbatim>\<open>nonsp\<close>.
\<close>

datatype scan_result = SplitAt nat | AtEnd int bool

definition opener :: "char \<Rightarrow> bool" where
  "opener c \<longleftrightarrow> c = CHR ''('' \<or> c = CHR ''{'' \<or> c = CHR ''['' \<or> c = CHR ''<''"

definition closer :: "char \<Rightarrow> bool" where
  "closer c \<longleftrightarrow> c = CHR '')'' \<or> c = CHR ''}'' \<or> c = CHR '']'' \<or> c = CHR ''>''"

definition blank :: "char \<Rightarrow> bool" where
  "blank c \<longleftrightarrow> c = CHR '' '' \<or> c = CHR 0x09"

fun scan :: "string \<Rightarrow> nat \<Rightarrow> int \<Rightarrow> bool \<Rightarrow> scan_result" where
  "scan [] i d nonsp = AtEnd d nonsp"
| "scan (c # cs) i d nonsp =
    (if opener c then scan cs (i + 1) (d + 1) nonsp
     else if closer c then scan cs (i + 1) (d - 1) nonsp
     else if blank c then
       (if d = 0 \<and> nonsp then SplitAt i else scan cs (i + 1) d nonsp)
     else scan cs (i + 1) d True)"

lemma scan_SplitAt_bounds:
  "scan cs i d nonsp = SplitAt j \<Longrightarrow> i \<le> j \<and> j < i + length cs \<and> (nonsp \<or> i < j)"
proof (induction cs arbitrary: i d nonsp)
  case Nil
  then show ?case by simp
next
  case (Cons c cs)
  then show ?case by (fastforce split: if_splits)
qed

text \<open>
  The outer loop of \<^verbatim>\<open>split\<close>: \<open>r\<close> is the slice of tokens so far and \<open>s\<close> the rest of the
  input.
\<close>

function split_loop :: "string list \<Rightarrow> string \<Rightarrow> error + string list" where
  "split_loop r s =
    (if s = [] then Inr r
     else case scan s 0 0 False of
       SplitAt i \<Rightarrow> split_loop (r @ [TrimSpace (take i s)]) (drop i s)
     | AtEnd d nonsp \<Rightarrow>
         if d \<noteq> 0 then Inl (Imbalanced s)
         else if nonsp then Inr (r @ [TrimSpace s])
         else Inr r)"
  by pat_completeness auto
termination
proof (relation "measure (\<lambda>(r, s). length s)")
  fix r :: "string list" and s :: string and i
  assume "s \<noteq> []" "scan s 0 0 False = SplitAt i"
  then have "0 < i" "0 < length s" by (auto dest: scan_SplitAt_bounds)
  then show "((r @ [TrimSpace (take i s)], drop i s), (r, s)) \<in> measure (\<lambda>(r, s). length s)"
    by simp
qed simp

declare split_loop.simps [simp del]

definition split :: "string \<Rightarrow> error + string list" where
  "split s = split_loop [] s"

text \<open>
  The depth counter of the claims, over a whole string: one more for each of the four
  opening characters, one less for each of the four closing ones.
\<close>

definition depth :: "string \<Rightarrow> int" where
  "depth s = int (length (filter opener s)) - int (length (filter closer s))"


subsection \<open>When the tokenizer fails\<close>

lemma depth_Nil: "depth [] = 0"
  by (simp add: depth_def)

lemma depth_Cons:
  "depth (c # cs) =
    (if opener c then depth cs + 1 else if closer c then depth cs - 1 else depth cs)"
  by (auto simp: depth_def opener_def closer_def)

lemma depth_append: "depth (a @ b) = depth a + depth b"
  by (simp add: depth_def)

lemma scan_AtEnd_depth: "scan cs i d nonsp = AtEnd d' n' \<Longrightarrow> d' = d + depth cs"
proof (induction cs arbitrary: i d nonsp)
  case Nil
  then show ?case by (simp add: depth_Nil)
next
  case (Cons c cs)
  then obtain d0 n0 where rec: "scan cs (i + 1) d0 n0 = AtEnd d' n'"
    and d0: "d0 = (if opener c then d + 1 else if closer c then d - 1 else d)"
    by (auto split: if_splits)
  from Cons.IH [OF rec] d0 show ?case by (simp add: depth_Cons)
qed

lemma scan_SplitAt_depth:
  "scan cs i d nonsp = SplitAt j \<Longrightarrow> d + depth (take (j - i) cs) = 0"
proof (induction cs arbitrary: i d nonsp)
  case Nil
  then show ?case by simp
next
  case (Cons c cs)
  show ?case
  proof (cases "blank c \<and> d = 0 \<and> nonsp \<and> \<not> opener c \<and> \<not> closer c")
    case True
    with Cons.prems have "j = i" by simp
    with True show ?thesis by (simp add: depth_Nil)
  next
    case False
    then obtain d0 n0 where rec: "scan cs (i + 1) d0 n0 = SplitAt j"
      and d0: "d0 = (if opener c then d + 1 else if closer c then d - 1 else d)"
      using Cons.prems by (auto split: if_splits)
    from rec have "i + 1 \<le> j" by (auto dest: scan_SplitAt_bounds)
    then have "j - i = Suc (j - (i + 1))" by arith
    then have tk: "take (j - i) (c # cs) = c # take (j - (i + 1)) cs"
      by simp
    from Cons.IH [OF rec] d0 show ?thesis
      unfolding tk by (auto simp add: depth_Cons split: if_splits)
  qed
qed

lemma split_loop_fails_iff: "(\<exists>e. split_loop r s = Inl e) \<longleftrightarrow> depth s \<noteq> 0"
proof (induction r s rule: split_loop.induct)
  case (1 r s)
  show ?case
  proof (cases "s = []")
    case True
    then show ?thesis by (simp add: split_loop.simps depth_Nil)
  next
    case False
    show ?thesis
    proof (cases "scan s 0 0 False")
      case (SplitAt i)
      from scan_SplitAt_depth [OF SplitAt] have "depth (take i s) = 0" by simp
      moreover have "depth s = depth (take i s) + depth (drop i s)"
        unfolding depth_append [symmetric] by simp
      ultimately have "depth (drop i s) = depth s" by simp
      with "1.IH" [OF False SplitAt] False SplitAt show ?thesis
        by (simp add: split_loop.simps [of r s])
    next
      case (AtEnd d nonsp)
      from scan_AtEnd_depth [OF AtEnd] have "d = depth s" by simp
      with False AtEnd show ?thesis
        by (simp add: split_loop.simps [of r s])
    qed
  qed
qed

lemma split_loop_error:
  "split_loop r s = Inl e \<Longrightarrow> \<exists>rest. e = Imbalanced rest \<and> suffix rest s"
proof (induction r s rule: split_loop.induct)
  case (1 r s)
  show ?case
  proof (cases "scan s 0 0 False")
    case (SplitAt i)
    with "1.prems" have ne: "s \<noteq> []"
      and rec: "split_loop (r @ [TrimSpace (take i s)]) (drop i s) = Inl e"
      by (auto simp: split_loop.simps [of r s] split: if_splits)
    from "1.IH" [OF ne SplitAt rec] obtain rest
      where "e = Imbalanced rest" "suffix rest (drop i s)"
      by blast
    then show ?thesis using suffix_drop suffix_order.trans by blast
  next
    case (AtEnd d nonsp)
    with "1.prems" show ?thesis
      by (auto simp: split_loop.simps [of r s] split: if_splits)
  qed
qed

text \<open>
  Claim C8.  The tokenizer \<^verbatim>\<open>split\<close> aborts with the imbalanced-expression panic (the
  spec's MalformedExpression) exactly when the shared depth counter of the whole input,
  one up for each of \<^verbatim>\<open>( { [ <\<close> and one down for each of \<^verbatim>\<open>) } ] >\<close>, is not zero at the end
  of the input; when the counter is back at zero it returns a token list, and it never
  ends in any other way.  (The source restarts its counter at every cut, but it cuts only
  where the counter is zero.)
\<close>

theorem split_fails_exactly_when_depth_nonzero:
  "((\<exists>rest. split s = Inl (Imbalanced rest)) \<longleftrightarrow> depth s \<noteq> 0) \<and>
   ((\<exists>toks. split s = Inr toks) \<longleftrightarrow> depth s = 0)"
proof -
  have fails: "(\<exists>e. split s = Inl e) \<longleftrightarrow> depth s \<noteq> 0"
    unfolding split_def by (rule split_loop_fails_iff)
  have kind: "\<exists>rest. e = Imbalanced rest" if "split s = Inl e" for e
    using that split_loop_error [of "[]" s e] unfolding split_def by blast
  have "(\<exists>rest. split s = Inl (Imbalanced rest)) \<longleftrightarrow> depth s \<noteq> 0"
    using fails kind by blast
  moreover have "(\<exists>toks. split s = Inr toks) \<longleftrightarrow> depth s = 0"
    using fails by (cases "split s") auto
  ultimately show ?thesis by blast
qed

subsection \<open>The tokens are no longer than the input\<close>

lemma TrimLeft_length: "length (TrimLeft s) \<le> length s"
proof (induction s rule: TrimLeft.induct)
  case (1 s)
  show ?case
  proof (cases "leading_space s = 0")
    case True
    then show ?thesis by (simp add: TrimLeft.simps [of s])
  next
    case False
    with "1.IH" show ?thesis by (simp add: TrimLeft.simps [of s])
  qed
qed

lemma TrimRight_length: "length (TrimRight s) \<le> length s"
proof (induction s rule: TrimRight.induct)
  case (1 s)
  show ?case
  proof (cases "trailing_space s = 0")
    case True
    then show ?thesis by (simp add: TrimRight.simps [of s])
  next
    case False
    with "1.IH" show ?thesis by (simp add: TrimRight.simps [of s])
  qed
qed

lemma TrimSpace_length: "length (TrimSpace s) \<le> length s"
  unfolding TrimSpace_def
  using TrimRight_length [of "TrimLeft s"] TrimLeft_length [of s] by simp

lemma split_loop_lengths:
  "split_loop r s = Inr toks \<Longrightarrow> sum_list (map length toks) \<le> sum_list (map length r) + length s"
proof (induction r s arbitrary: toks rule: split_loop.induct)
  case (1 r s)
  show ?case
  proof (cases "s = []")
    case True
    with "1.prems" show ?thesis by (simp add: split_loop.simps)
  next
    case False
    show ?thesis
    proof (cases "scan s 0 0 False")
      case (SplitAt i)
      with False "1.prems"
      have rec: "split_loop (r @ [TrimSpace (take i s)]) (drop i s) = Inr toks"
        by (simp add: split_loop.simps [of r s])
      from scan_SplitAt_bounds [OF SplitAt] have "i \<le> length s" by simp
      then have "length (TrimSpace (take i s)) + length (drop i s) \<le> length s"
        using TrimSpace_length [of "take i s"] by simp
      with "1.IH" [OF False SplitAt rec] show ?thesis by simp
    next
      case (AtEnd d nonsp)
      with False "1.prems" show ?thesis
        using TrimSpace_length [of s]
        by (auto simp add: split_loop.simps [of r s] split: if_splits)
    qed
  qed
qed

lemma split_lengths: "split s = Inr toks \<Longrightarrow> sum_list (map length toks) \<le> length s"
  using split_loop_lengths [of "[]" s toks] by (simp add: split_def)

subsection \<open>The match compiler \<^verbatim>\<open>genMatch0\<close>\<close>

text \<open>The verb \<^verbatim>\<open>%d\<close> of \<^verbatim>\<open>fmt\<close>, for the non-negative counters of the program.\<close>

definition digit :: "nat \<Rightarrow> char" where
  "digit d = ''0123456789'' ! d"

fun itoa :: "nat \<Rightarrow> string" where
  "itoa n = (if n < 10 then [digit n] else itoa (n div 10) @ [digit (n mod 10)])"

declare itoa.simps [simp del]

text \<open>
  The slice expression \<^verbatim>\<open>a[1 : len(a)-1]\<close>, which drops the first and the last byte and
  panics on a string of fewer than two bytes.
\<close>

definition inner :: "string \<Rightarrow> error + string" where
  "inner a = (if length a < 2 then Inl SliceOutOfRange else Inr (take (length a - 2) (drop 1 a)))"

text \<open>
  The map \<^verbatim>\<open>m map[string]string\<close> from a name to the Go expression of the value it is bound
  to.  The source passes one map through the whole compilation of a match expression and
  updates it in place; the model passes it in and returns it updated.
\<close>

type_synonym env = "string \<rightharpoonup> string"

text \<open>
  \<open>genMatch0\<close> is the source's function of that name, \<open>genMatchArgs\<close> its loop
  \<^verbatim>\<open>for _, a := range s[1:]\<close> and \<open>genMatchArg\<close> the body of that loop.  Each returns the
  chunks it writes to \<^verbatim>\<open>w\<close> and the updated map; the loop also returns the final value of
  \<^verbatim>\<open>argnum\<close>.  The parameter \<^verbatim>\<open>top\<close> of the source is \<open>toplevel\<close> here.  An empty token list
  panics at \<^verbatim>\<open>s[0]\<close> when \<^verbatim>\<open>top\<close> is false and at \<^verbatim>\<open>s[1:]\<close> otherwise.
\<close>

function genMatch0 :: "string \<Rightarrow> string \<Rightarrow> string \<Rightarrow> env \<Rightarrow> bool \<Rightarrow> error + (string list \<times> env)"
  and genMatchArg :: "string \<Rightarrow> string \<Rightarrow> string \<Rightarrow> env \<Rightarrow> nat \<Rightarrow> error + (string list \<times> env \<times> nat)"
  and genMatchArgs :: "string list \<Rightarrow> string \<Rightarrow> string \<Rightarrow> env \<Rightarrow> nat \<Rightarrow> error + (string list \<times> env \<times> nat)"
where
  "genMatch0 match v fail m toplevel =
    (if match = [] then Inl IndexOutOfRange
     else if hd match \<noteq> CHR ''('' then
       (case m match of
          Some x \<Rightarrow> Inr ([''if '' @ v @ '' != '' @ x @ '' '' @ fail], m)
        | None \<Rightarrow> Inr ([match @ '' := '' @ v @ ''\<newline>''], m(match \<mapsto> v)))
     else
       (case inner match of
          Inl e \<Rightarrow> Inl e
        | Inr body \<Rightarrow>
       (case split body of
          Inl e \<Rightarrow> Inl e
        | Inr s \<Rightarrow>
            if s = [] then Inl (if toplevel then SliceOutOfRange else IndexOutOfRange)
            else
              (case genMatchArgs (tl s) v fail m 0 of
                 Inl e \<Rightarrow> Inl e
               | Inr (out, m', argnum) \<Rightarrow>
                   Inr ((if toplevel then [] else [''if '' @ v @ ''.Op != Op'' @ hd s @ '' '' @ fail]) @ out,
                        m')))))"
| "genMatchArg a v fail m argnum =
    (if a = [] then Inl IndexOutOfRange
     else if hd a = CHR ''<'' then
       (case inner a of
          Inl e \<Rightarrow> Inl e
        | Inr t \<Rightarrow>
            if t = [] then Inl IndexOutOfRange
            else if hd t = CHR ''{'' then
              (case inner t of
                 Inl e \<Rightarrow> Inl e
               | Inr code \<Rightarrow> Inr ([''if '' @ v @ ''.Type != '' @ code @ '' '' @ fail], m, argnum))
            else
              (case m t of
                 Some u \<Rightarrow> Inr ([''if '' @ v @ ''.Type != '' @ u @ '' '' @ fail], m, argnum)
               | None \<Rightarrow> Inr ([t @ '' := '' @ v @ ''.Type\<newline>''], m(t \<mapsto> v @ ''.Type''), argnum)))
     else if hd a = CHR ''['' then
       (case inner a of
          Inl e \<Rightarrow> Inl e
        | Inr x \<Rightarrow>
            if x = [] then Inl IndexOutOfRange
            else if hd x = CHR ''{'' then
              (case inner x of
                 Inl e \<Rightarrow> Inl e
               | Inr code \<Rightarrow> Inr ([''if '' @ v @ ''.Aux != '' @ code @ '' '' @ fail], m, argnum))
            else
              (case m x of
                 Some y \<Rightarrow> Inr ([''if '' @ v @ ''.Aux != '' @ y @ '' '' @ fail], m, argnum)
               | None \<Rightarrow> Inr ([x @ '' := '' @ v @ ''.Aux\<newline>''], m(x \<mapsto> v @ ''.Aux''), argnum)))
     else if hd a = CHR ''{'' then
       (case inner a of
          Inl e \<Rightarrow> Inl e
        | Inr code \<Rightarrow>
            Inr ([''if '' @ v @ ''.Args['' @ itoa argnum @ ''] != '' @ code @ '' '' @ fail],
                 m, argnum + 1))
     else
       (case genMatch0 a (v @ ''.Args['' @ itoa argnum @ '']'') fail m False of
          Inl e \<Rightarrow> Inl e
        | Inr (out, m') \<Rightarrow> Inr (out, m', argnum + 1)))"
| "genMatchArgs [] v fail m argnum = Inr ([], m, argnum)"
| "genMatchArgs (a # as) v fail m argnum =
    (case genMatchArg a v fail m argnum of
       Inl e \<Rightarrow> Inl e
     | Inr (out, m', argnum') \<Rightarrow>
         (case genMatchArgs as v fail m' argnum' of
            Inl e \<Rightarrow> Inl e
          | Inr (out', m'', argnum'') \<Rightarrow> Inr (out @ out', m'', argnum'')))"
  by pat_completeness auto
termination
proof (relation "inv_image (less_than <*lex*> less_than)
    (case_sum (\<lambda>(match, v, fail, m, toplevel). (length match, 0::nat))
      (case_sum (\<lambda>(a, v, fail, m, argnum). (length a, 1))
                (\<lambda>(as, v, fail, m, argnum). (sum_list (map length as), 2 + length as))))")
  show "wf (inv_image (less_than <*lex*> less_than)
    (case_sum (\<lambda>(match, v, fail, m, toplevel). (length match, 0::nat))
      (case_sum (\<lambda>(a, v, fail, m, argnum). (length a, 1))
                (\<lambda>(as, v, fail, m, argnum). (sum_list (map length as), 2 + length as)))))"
    by (intro wf_inv_image wf_lex_prod wf_less_than)
next
  fix match v fail :: string and m :: env and toplevel :: bool and body s
  assume "match \<noteq> []" "inner match = Inr body" "split body = Inr s" "s \<noteq> []"
  then have "length body < length match" "sum_list (map length s) \<le> length body"
    by (auto simp: inner_def split: if_splits dest: split_lengths)
  moreover have "sum_list (map length (tl s)) \<le> sum_list (map length s)"
    by (cases s) auto
  ultimately show "(Inr (Inr (tl s, v, fail, m, 0)), Inl (match, v, fail, m, toplevel))
    \<in> inv_image (less_than <*lex*> less_than)
    (case_sum (\<lambda>(match, v, fail, m, toplevel). (length match, 0::nat))
      (case_sum (\<lambda>(a, v, fail, m, argnum). (length a, 1))
                (\<lambda>(as, v, fail, m, argnum). (sum_list (map length as), 2 + length as))))"
    by simp
qed auto

declare genMatch0.simps [simp del] genMatchArg.simps [simp del]

definition genMatch :: "string \<Rightarrow> string \<Rightarrow> error + string list" where
  "genMatch match fail =
    (case genMatch0 match ''v'' fail Map.empty True of
       Inl e \<Rightarrow> Inl e
     | Inr (out, m) \<Rightarrow> Inr out)"


subsection \<open>Properties of the match compiler\<close>

text \<open>
  An argument token takes a positional child slot unless it is a type constraint
  \<^verbatim>\<open><...>\<close> or an aux constraint \<^verbatim>\<open>[...]\<close>.
\<close>

definition positional :: "string \<Rightarrow> bool" where
  "positional a \<longleftrightarrow> hd a \<noteq> CHR ''<'' \<and> hd a \<noteq> CHR ''[''"

lemma genMatchArg_type:
  "hd a = CHR ''<'' \<Longrightarrow> genMatchArg a v fail m n = Inr (out, m', n') \<Longrightarrow>
    n' = n \<and> (\<exists>x. out = [''if '' @ v @ ''.Type != '' @ x @ '' '' @ fail] \<or>
                   out = [x @ '' := '' @ v @ ''.Type\<newline>''])"
  by (subst (asm) genMatchArg.simps) (auto split: if_splits sum.splits option.splits)

lemma genMatchArg_aux:
  "hd a = CHR ''['' \<Longrightarrow> genMatchArg a v fail m n = Inr (out, m', n') \<Longrightarrow>
    n' = n \<and> (\<exists>x. out = [''if '' @ v @ ''.Aux != '' @ x @ '' '' @ fail] \<or>
                   out = [x @ '' := '' @ v @ ''.Aux\<newline>''])"
  by (subst (asm) genMatchArg.simps) (auto split: if_splits sum.splits option.splits)

lemma genMatchArg_pin:
  "hd a = CHR ''{'' \<Longrightarrow> genMatchArg a v fail m n = Inr (out, m', n') \<Longrightarrow>
    n' = n + 1 \<and> m' = m \<and>
    (\<exists>code. out = [''if '' @ v @ ''.Args['' @ itoa n @ ''] != '' @ code @ '' '' @ fail])"
  by (subst (asm) genMatchArg.simps) (auto split: if_splits sum.splits option.splits)

lemma genMatchArg_sub:
  "hd a \<noteq> CHR ''<'' \<Longrightarrow> hd a \<noteq> CHR ''['' \<Longrightarrow> hd a \<noteq> CHR ''{'' \<Longrightarrow>
   genMatchArg a v fail m n = Inr (out, m', n') \<Longrightarrow>
    n' = n + 1 \<and> genMatch0 a (v @ ''.Args['' @ itoa n @ '']'') fail m False = Inr (out, m')"
  by (subst (asm) genMatchArg.simps) (auto split: if_splits sum.splits option.splits)

lemma genMatchArg_argnum:
  "genMatchArg a v fail m n = Inr (out, m', n') \<Longrightarrow> n' = (if positional a then n + 1 else n)"
  using genMatchArg_type [of a v fail m n out m' n'] genMatchArg_aux [of a v fail m n out m' n']
    genMatchArg_pin [of a v fail m n out m' n'] genMatchArg_sub [of a v fail m n out m' n']
  by (auto simp: positional_def)

lemma genMatchArgs_argnum:
  "genMatchArgs as v fail m n = Inr (out, m', n') \<Longrightarrow> n' = n + length (filter positional as)"
proof (induction as arbitrary: m n out)
  case Nil
  then show ?case by simp
next
  case (Cons a as)
  from Cons.prems obtain o1 m1 n1 o2 where
    a: "genMatchArg a v fail m n = Inr (o1, m1, n1)" and
    r: "genMatchArgs as v fail m1 n1 = Inr (o2, m', n')"
    by (auto split: sum.splits)
  from genMatchArg_argnum [OF a] Cons.IH [OF r] show ?case by simp
qed

lemma genMatchArgs_append:
  "genMatchArgs (pre @ post) v fail m n =
    (case genMatchArgs pre v fail m n of
       Inl e \<Rightarrow> Inl e
     | Inr (o1, m1, n1) \<Rightarrow>
         (case genMatchArgs post v fail m1 n1 of
            Inl e \<Rightarrow> Inl e
          | Inr (o2, m2, n2) \<Rightarrow> Inr (o1 @ o2, m2, n2)))"
  by (induction pre arbitrary: m n) (auto split: sum.splits)

lemma envs_grow:
  "(genMatch0 match v fail m toplevel = Inr (out, m') \<longrightarrow> m \<subseteq>\<^sub>m m')"
  "(genMatchArg a v fail m n = Inr (out1, m1, n1) \<longrightarrow> m \<subseteq>\<^sub>m m1)"
  "(genMatchArgs as v fail m n = Inr (out2, m2, n2) \<longrightarrow> m \<subseteq>\<^sub>m m2)"
proof (induction match v fail m toplevel and a v fail m n and as v fail m n
    arbitrary: out m' and out1 m1 n1 and out2 m2 n2
    rule: genMatch0_genMatchArg_genMatchArgs.induct)
  case (1 match v fail m toplevel)
  show ?case
  proof
    assume ok: "genMatch0 match v fail m toplevel = Inr (out, m')"
    show "m \<subseteq>\<^sub>m m'"
    proof (cases "hd match = CHR ''(''")
      case False
      with ok show ?thesis
        by (auto simp: genMatch0.simps [of match] map_le_def split: if_splits option.splits)
    next
      case True
      with ok obtain body s o2 n2 where
        ne: "match \<noteq> []" and b: "inner match = Inr body" and s: "split body = Inr s" and
        sne: "s \<noteq> []" and r: "genMatchArgs (tl s) v fail m 0 = Inr (o2, m', n2)"
        by (auto simp: genMatch0.simps [of match] split: if_splits sum.splits)
      from "1.IH" [OF ne _ b s sne] True r show ?thesis by simp
    qed
  qed
next
  case (2 a v fail m argnum)
  show ?case
  proof
    assume ok: "genMatchArg a v fail m argnum = Inr (out1, m1, n1)"
    show "m \<subseteq>\<^sub>m m1"
    proof (cases "hd a = CHR ''<'' \<or> hd a = CHR ''['' \<or> hd a = CHR ''{''")
      case True
      with ok show ?thesis
        by (auto simp: genMatchArg.simps [of a] map_le_def split: if_splits sum.splits option.splits)
    next
      case False
      with ok obtain o2 where ne: "a \<noteq> []"
        and r: "genMatch0 a (v @ ''.Args['' @ itoa argnum @ '']'') fail m False = Inr (o2, m1)"
        by (auto simp: genMatchArg.simps [of a] split: if_splits sum.splits)
      from "2.IH" [OF ne] False r show ?thesis by simp
    qed
  qed
next
  case (3 v fail m argnum)
  then show ?case by simp
next
  case (4 a as v fail m argnum)
  show ?case
  proof
    assume ok: "genMatchArgs (a # as) v fail m argnum = Inr (out2, m2, n2)"
    then obtain o1 ma na o2 where
      a: "genMatchArg a v fail m argnum = Inr (o1, ma, na)" and
      r: "genMatchArgs as v fail ma na = Inr (o2, m2, n2)"
      by (auto split: sum.splits)
    from "4.IH"(1) a have "m \<subseteq>\<^sub>m ma" by simp
    moreover from "4.IH"(2) [OF a refl refl] r have "ma \<subseteq>\<^sub>m m2" by simp
    ultimately show "m \<subseteq>\<^sub>m m2" by (rule map_le_trans)
  qed
qed

subsection \<open>The occurrences of names in a match expression\<close>

text \<open>
  \<^verbatim>\<open>genMatch0\<close> walks over the match expression once, from left to right, and what it writes
  for a position depends, beyond the position, on the map \<^verbatim>\<open>m\<close> only.  \<open>match_events\<close> is
  that walk without the map.  It goes through the match expression as \<^verbatim>\<open>genMatch0\<close> does,
  with the same tests in the same order, the same aborts, the same reference \<^verbatim>\<open>v\<close> and the
  same counter \<^verbatim>\<open>argnum\<close>.  Where the source looks a name up in \<^verbatim>\<open>m\<close> (lines 175, 209 and
  225) it records the occurrence \<open>Occ k x r\<close>: the name \<open>x\<close>, the kind \<open>k\<close> of the position
  (an ordinary variable, a type constraint \<^verbatim>\<open><x>\<close>, an aux constraint \<^verbatim>\<open>[x]\<close>) and the
  expression \<open>r\<close> that the position stands for (\<^verbatim>\<open>v\<close>, \<^verbatim>\<open>v.Type\<close>, \<^verbatim>\<open>v.Aux\<close>).  Where the source
  writes a guard that does not depend on \<^verbatim>\<open>m\<close> (the operator of a nested node, a type, aux
  or argument given as \<^verbatim>\<open>{code}\<close>) it records the chunk, \<open>Emit c\<close>.
\<close>

datatype position = VarPos | TypePos | AuxPos

datatype event = Occ position string string | Emit string

function match_events :: "string \<Rightarrow> string \<Rightarrow> string \<Rightarrow> bool \<Rightarrow> error + event list"
  and arg_events :: "string \<Rightarrow> string \<Rightarrow> string \<Rightarrow> nat \<Rightarrow> error + (event list \<times> nat)"
  and args_events :: "string list \<Rightarrow> string \<Rightarrow> string \<Rightarrow> nat \<Rightarrow> error + (event list \<times> nat)"
where
  "match_events match v fail toplevel =
    (if match = [] then Inl IndexOutOfRange
     else if hd match \<noteq> CHR ''('' then Inr [Occ VarPos match v]
     else
       (case inner match of
          Inl e \<Rightarrow> Inl e
        | Inr body \<Rightarrow>
       (case split body of
          Inl e \<Rightarrow> Inl e
        | Inr s \<Rightarrow>
            if s = [] then Inl (if toplevel then SliceOutOfRange else IndexOutOfRange)
            else
              (case args_events (tl s) v fail 0 of
                 Inl e \<Rightarrow> Inl e
               | Inr (es, argnum) \<Rightarrow>
                   Inr ((if toplevel then []
                         else [Emit (''if '' @ v @ ''.Op != Op'' @ hd s @ '' '' @ fail)]) @ es)))))"
| "arg_events a v fail argnum =
    (if a = [] then Inl IndexOutOfRange
     else if hd a = CHR ''<'' then
       (case inner a of
          Inl e \<Rightarrow> Inl e
        | Inr t \<Rightarrow>
            if t = [] then Inl IndexOutOfRange
            else if hd t = CHR ''{'' then
              (case inner t of
                 Inl e \<Rightarrow> Inl e
               | Inr code \<Rightarrow>
                   Inr ([Emit (''if '' @ v @ ''.Type != '' @ code @ '' '' @ fail)], argnum))
            else Inr ([Occ TypePos t (v @ ''.Type'')], argnum))
     else if hd a = CHR ''['' then
       (case inner a of
          Inl e \<Rightarrow> Inl e
        | Inr x \<Rightarrow>
            if x = [] then Inl IndexOutOfRange
            else if hd x = CHR ''{'' then
              (case inner x of
                 Inl e \<Rightarrow> Inl e
               | Inr code \<Rightarrow>
                   Inr ([Emit (''if '' @ v @ ''.Aux != '' @ code @ '' '' @ fail)], argnum))
            else Inr ([Occ AuxPos x (v @ ''.Aux'')], argnum))
     else if hd a = CHR ''{'' then
       (case inner a of
          Inl e \<Rightarrow> Inl e
        | Inr code \<Rightarrow>
            Inr ([Emit (''if '' @ v @ ''.Args['' @ itoa argnum @ ''] != '' @ code @ '' '' @ fail)],
                 argnum + 1))
     else
       (case match_events a (v @ ''.Args['' @ itoa argnum @ '']'') fail False of
          Inl e \<Rightarrow> Inl e
        | Inr es \<Rightarrow> Inr (es, argnum + 1)))"
| "args_events [] v fail argnum = Inr ([], argnum)"
| "args_events (a # as) v fail argnum =
    (case arg_events a v fail argnum of
       Inl e \<Rightarrow> Inl e
     | Inr (es, argnum') \<Rightarrow>
         (case args_events as v fail argnum' of
            Inl e \<Rightarrow> Inl e
          | Inr (es', argnum'') \<Rightarrow> Inr (es @ es', argnum'')))"
  by pat_completeness auto
termination
proof (relation "inv_image (less_than <*lex*> less_than)
    (case_sum (\<lambda>(match, v, fail, toplevel). (length match, 0::nat))
      (case_sum (\<lambda>(a, v, fail, argnum). (length a, 1))
                (\<lambda>(as, v, fail, argnum). (sum_list (map length as), 2 + length as))))")
  show "wf (inv_image (less_than <*lex*> less_than)
    (case_sum (\<lambda>(match, v, fail, toplevel). (length match, 0::nat))
      (case_sum (\<lambda>(a, v, fail, argnum). (length a, 1))
                (\<lambda>(as, v, fail, argnum). (sum_list (map length as), 2 + length as)))))"
    by (intro wf_inv_image wf_lex_prod wf_less_than)
next
  fix match v fail :: string and toplevel :: bool and body s
  assume "match \<noteq> []" "inner match = Inr body" "split body = Inr s" "s \<noteq> []"
  then have "length body < length match" "sum_list (map length s) \<le> length body"
    by (auto simp: inner_def split: if_splits dest: split_lengths)
  moreover have "sum_list (map length (tl s)) \<le> sum_list (map length s)"
    by (cases s) auto
  ultimately show "(Inr (Inr (tl s, v, fail, 0)), Inl (match, v, fail, toplevel))
    \<in> inv_image (less_than <*lex*> less_than)
    (case_sum (\<lambda>(match, v, fail, toplevel). (length match, 0::nat))
      (case_sum (\<lambda>(a, v, fail, argnum). (length a, 1))
                (\<lambda>(as, v, fail, argnum). (sum_list (map length as), 2 + length as))))"
    by simp
qed auto

declare match_events.simps [simp del] arg_events.simps [simp del]


text \<open>
  What the source does with \<^verbatim>\<open>m\<close> at an occurrence: a name that is in the map compiles to
  a guard against the expression recorded for it and leaves the map as it is, a name that
  is not compiles to a binding and is recorded (\<open>stmt_for\<close>, \<open>env_after\<close>).  \<open>thread\<close> takes
  one map through a list of events in this way.  \<open>bound_at m es x\<close> is the expression
  that \<open>x\<close> is bound to after the events \<open>es\<close>, starting from the map \<open>m\<close>: what \<open>m\<close> has
  for \<open>x\<close>, and else the expression of the first occurrence of \<open>x\<close> in \<open>es\<close>, of whatever
  kind.
\<close>

definition stmt_for :: "string \<Rightarrow> env \<Rightarrow> event \<Rightarrow> string" where
  "stmt_for fail m e =
    (case e of
       Emit c \<Rightarrow> c
     | Occ k x r \<Rightarrow>
         (case m x of
            Some u \<Rightarrow> ''if '' @ r @ '' != '' @ u @ '' '' @ fail
          | None \<Rightarrow> x @ '' := '' @ r @ ''\<newline>''))"

definition env_after :: "env \<Rightarrow> event \<Rightarrow> env" where
  "env_after m e =
    (case e of
       Emit c \<Rightarrow> m
     | Occ k x r \<Rightarrow> (case m x of Some u \<Rightarrow> m | None \<Rightarrow> m(x \<mapsto> r)))"

fun thread :: "string \<Rightarrow> env \<Rightarrow> event list \<Rightarrow> string list" where
  "thread fail m [] = []"
| "thread fail m (e # es) = stmt_for fail m e # thread fail (env_after m e) es"

fun first_ref :: "event list \<Rightarrow> string \<Rightarrow> string option" where
  "first_ref [] x = None"
| "first_ref (Emit c # es) x = first_ref es x"
| "first_ref (Occ k y r # es) x = (if y = x then Some r else first_ref es x)"

definition bound_at :: "env \<Rightarrow> event list \<Rightarrow> string \<Rightarrow> string option" where
  "bound_at m es x = (case m x of Some u \<Rightarrow> Some u | None \<Rightarrow> first_ref es x)"


lemma thread_append:
  "thread fail m (es @ es') = thread fail m es @ thread fail (foldl env_after m es) es'"
  by (induction es arbitrary: m) auto

lemma length_thread [simp]: "length (thread fail m es) = length es"
  by (induction es arbitrary: m) auto

lemma env_after_events: "foldl env_after m es x = bound_at m es x"
proof (induction es arbitrary: m)
  case Nil
  then show ?case by (simp add: bound_at_def split: option.splits)
next
  case (Cons e es)
  show ?case
  proof (cases e)
    case (Emit c)
    with Cons.IH [of "env_after m e"] show ?thesis
      by (simp add: env_after_def bound_at_def split: option.splits)
  next
    case (Occ k y r)
    with Cons.IH [of "env_after m e"] show ?thesis
      by (auto simp: env_after_def bound_at_def split: option.splits)
  qed
qed

lemma thread_nth:
  "i < length es \<Longrightarrow> thread fail m es ! i = stmt_for fail (foldl env_after m (take i es)) (es ! i)"
proof (induction es arbitrary: m i)
  case Nil
  then show ?case by simp
next
  case (Cons e es)
  then show ?case by (cases i) auto
qed

lemma match_refines:
  "genMatch0 match v fail m toplevel =
    (case match_events match v fail toplevel of
       Inl e \<Rightarrow> Inl e
     | Inr es \<Rightarrow> Inr (thread fail m es, foldl env_after m es))"
  "genMatchArg a v fail m n =
    (case arg_events a v fail n of
       Inl e \<Rightarrow> Inl e
     | Inr (es, n') \<Rightarrow> Inr (thread fail m es, foldl env_after m es, n'))"
  "genMatchArgs as v fail m n =
    (case args_events as v fail n of
       Inl e \<Rightarrow> Inl e
     | Inr (es, n') \<Rightarrow> Inr (thread fail m es, foldl env_after m es, n'))"
proof (induction match v fail m toplevel and a v fail m n and as v fail m n
    rule: genMatch0_genMatchArg_genMatchArgs.induct)
  case (1 match v fail m toplevel)
  show ?case
  proof (cases "match \<noteq> [] \<and> hd match = CHR ''('' \<and>
        (\<exists>body s. inner match = Inr body \<and> split body = Inr s \<and> s \<noteq> [])")
    case False
    then show ?thesis
      by (auto simp: genMatch0.simps [of match] match_events.simps [of match]
          stmt_for_def env_after_def split: sum.splits option.splits)
  next
    case True
    then obtain body s where ne: "match \<noteq> []" and hd: "hd match = CHR ''(''"
      and b: "inner match = Inr body" and s: "split body = Inr s" and sne: "s \<noteq> []"
      by blast
    from "1.IH" [OF ne _ b s sne] hd
    have "genMatchArgs (tl s) v fail m 0 =
      (case args_events (tl s) v fail 0 of
         Inl e \<Rightarrow> Inl e
       | Inr (es, n') \<Rightarrow> Inr (thread fail m es, foldl env_after m es, n'))"
      by simp
    with ne hd b s sne show ?thesis
      by (auto simp: genMatch0.simps [of match] match_events.simps [of match]
          thread_append stmt_for_def env_after_def split: sum.splits)
  qed
next
  case (2 a v fail m argnum)
  show ?case
  proof (cases "a = [] \<or> hd a = CHR ''<'' \<or> hd a = CHR ''['' \<or> hd a = CHR ''{''")
    case True
    then show ?thesis
      by (auto simp: genMatchArg.simps [of a] arg_events.simps [of a]
          stmt_for_def env_after_def split: sum.splits option.splits)
  next
    case False
    with "2.IH" have "genMatch0 a (v @ ''.Args['' @ itoa argnum @ '']'') fail m False =
      (case match_events a (v @ ''.Args['' @ itoa argnum @ '']'') fail False of
         Inl e \<Rightarrow> Inl e
       | Inr es \<Rightarrow> Inr (thread fail m es, foldl env_after m es))"
      by simp
    with False show ?thesis
      by (auto simp: genMatchArg.simps [of a] arg_events.simps [of a] split: sum.splits)
  qed
next
  case (3 v fail m argnum)
  then show ?case by simp
next
  case (4 a as v fail m argnum)
  show ?case
  proof (cases "arg_events a v fail argnum")
    case (Inl e)
    with "4.IH"(1) show ?thesis by simp
  next
    case (Inr r)
    obtain es n1 where r: "r = (es, n1)" by (cases r) auto
    with Inr "4.IH"(1)
    have a: "genMatchArg a v fail m argnum = Inr (thread fail m es, foldl env_after m es, n1)"
      by simp
    from "4.IH"(2) [OF a refl refl]
    have "genMatchArgs as v fail (foldl env_after m es) n1 =
      (case args_events as v fail n1 of
         Inl e \<Rightarrow> Inl e
       | Inr (es', n') \<Rightarrow>
           Inr (thread fail (foldl env_after m es) es', foldl env_after (foldl env_after m es) es', n'))" .
    with a Inr r show ?thesis
      by (auto simp: thread_append split: sum.splits)
  qed
qed


lemma first_ref_append:
  "first_ref (es @ es') x = (case first_ref es x of Some r \<Rightarrow> Some r | None \<Rightarrow> first_ref es' x)"
  by (induction es x rule: first_ref.induct) auto

lemma bound_at_later:
  assumes "i < j" "j \<le> length es" "es ! i = Occ k x r" "bound_at m (take i es) x = None"
  shows "bound_at m (take j es) x = Some r"
proof -
  from assms(1,2) have i: "i < length es" by simp
  have "take j es = take i es @ es ! i # take (j - Suc i) (drop (Suc i) es)"
  proof -
    have "take j es = take i (take j es) @ drop i (take j es)"
      by (rule append_take_drop_id [symmetric])
    also have "take i (take j es) = take i es" using assms(1) by (simp add: min_def)
    also have "drop i (take j es) = take (j - i) (drop i es)" by (simp add: drop_take)
    also have "drop i es = es ! i # drop (Suc i) es" using i by (simp add: Cons_nth_drop_Suc)
    also have "take (j - i) (es ! i # drop (Suc i) es) = es ! i # take (j - Suc i) (drop (Suc i) es)"
    proof -
      from assms(1) have "j - i = Suc (j - Suc i)" by arith
      then show ?thesis by simp
    qed
    finally show ?thesis .
  qed
  moreover from assms(4) have "m x = None" "first_ref (take i es) x = None"
    by (auto simp: bound_at_def split: option.splits)
  ultimately show ?thesis using assms(3)
    by (simp add: bound_at_def first_ref_append)
qed

lemma match_run_events:
  assumes "genMatch0 match v fail m toplevel = Inr (out, m')"
  shows "\<exists>es. match_events match v fail toplevel = Inr es \<and> out = thread fail m es \<and>
    m' = foldl env_after m es"
  using assms match_refines(1) [of match v fail m toplevel]
  by (auto split: sum.splits)


lemma bound_at_stays:
  assumes "bound_at m (take j es) x = Some u"
  shows "bound_at m es x = Some u"
proof -
  have "es = take j es @ drop j es" by simp
  then have "first_ref es x =
      (case first_ref (take j es) x of Some r \<Rightarrow> Some r | None \<Rightarrow> first_ref (drop j es) x)"
    using first_ref_append [of "take j es" "drop j es" x] by simp
  with assms show ?thesis
    by (auto simp: bound_at_def split: option.splits)
qed

lemma genMatch_run:
  "genMatch match fail = Inr out \<Longrightarrow>
    \<exists>m'. genMatch0 match ''v'' fail Map.empty True = Inr (out, m')"
  by (auto simp: genMatch_def split: sum.splits)

subsection \<open>The statements of the match code\<close>

text \<open>
  \<open>ref_of v p\<close>: the expression \<open>p\<close> is \<open>v\<close> followed by any number of child selectors
  \<^verbatim>\<open>.Args[n]\<close>.  \<open>value_expr v r\<close>: \<open>r\<close> is such an expression or its \<^verbatim>\<open>.Type\<close> or \<^verbatim>\<open>.Aux\<close>
  field; these are the expressions that a name can be bound to.  \<open>match_stmt src v fail c\<close>
  lists the statements of the match code of the rule text \<open>src\<close>.  Every part of such a
  statement that is not fixed is either a value expression or a piece of the text of the
  rule itself, \<open>sublist x src\<close>: a name, an operator, or the code between braces, which the
  source copies as it is.  The statement \<open>c\<close> is

    \<^item> a binding \<^verbatim>\<open>x := r\<close> of a name of the rule to a value expression,
    \<^item> a guard \<^verbatim>\<open>if r != u fail\<close> that compares two value expressions,
    \<^item> a guard \<^verbatim>\<open>if r != x fail\<close> that compares a value expression with text of the rule, or
    \<^item> a guard \<^verbatim>\<open>if p.Op != Op<x> fail\<close> on the operator of a value, \<open>x\<close> text of the rule.

  \<open>event_ok\<close> is the same for the events: the expression of an occurrence has the shape
  that belongs to its kind (\<open>occ_ref\<close>), its name is text of the rule, and a recorded
  chunk is a guard of the last two kinds.  \<open>env_ok v m\<close>: the map binds names to value
  expressions only.
\<close>

inductive ref_of :: "string \<Rightarrow> string \<Rightarrow> bool" for v :: string where
  root: "ref_of v v"
| child: "ref_of v p \<Longrightarrow> ref_of v (p @ ''.Args['' @ itoa n @ '']'')"

definition value_expr :: "string \<Rightarrow> string \<Rightarrow> bool" where
  "value_expr v r \<longleftrightarrow> (\<exists>p. ref_of v p \<and> (r = p \<or> r = p @ ''.Type'' \<or> r = p @ ''.Aux''))"

definition match_stmt :: "string \<Rightarrow> string \<Rightarrow> string \<Rightarrow> string \<Rightarrow> bool" where
  "match_stmt src v fail c \<longleftrightarrow>
    (\<exists>x r. sublist x src \<and> value_expr v r \<and> c = x @ '' := '' @ r @ ''\<newline>'') \<or>
    (\<exists>r u. value_expr v r \<and> value_expr v u \<and> c = ''if '' @ r @ '' != '' @ u @ '' '' @ fail) \<or>
    (\<exists>r x. value_expr v r \<and> sublist x src \<and> c = ''if '' @ r @ '' != '' @ x @ '' '' @ fail) \<or>
    (\<exists>p x. ref_of v p \<and> sublist x src \<and> c = ''if '' @ p @ ''.Op != Op'' @ x @ '' '' @ fail)"

definition occ_ref :: "string \<Rightarrow> position \<Rightarrow> string \<Rightarrow> bool" where
  "occ_ref v k r \<longleftrightarrow>
    (case k of
       VarPos \<Rightarrow> ref_of v r
     | TypePos \<Rightarrow> (\<exists>p. ref_of v p \<and> r = p @ ''.Type'')
     | AuxPos \<Rightarrow> (\<exists>p. ref_of v p \<and> r = p @ ''.Aux''))"

definition event_ok :: "string \<Rightarrow> string \<Rightarrow> string \<Rightarrow> event \<Rightarrow> bool" where
  "event_ok src v fail e \<longleftrightarrow>
    (case e of
       Occ k x r \<Rightarrow> sublist x src \<and> occ_ref v k r
     | Emit c \<Rightarrow>
         (\<exists>r x. value_expr v r \<and> sublist x src \<and> c = ''if '' @ r @ '' != '' @ x @ '' '' @ fail) \<or>
         (\<exists>p x. ref_of v p \<and> sublist x src \<and> c = ''if '' @ p @ ''.Op != Op'' @ x @ '' '' @ fail))"

definition env_ok :: "string \<Rightarrow> env \<Rightarrow> bool" where
  "env_ok v m \<longleftrightarrow> (\<forall>x u. m x = Some u \<longrightarrow> value_expr v u)"

text \<open>The tokens of a text, and a text without its first and last byte, are pieces of it.\<close>

lemma sublist_trans: "sublist a b \<Longrightarrow> sublist b c \<Longrightarrow> sublist a c"
  by (rule sublist_order.order.trans)

lemma TrimLeft_sublist: "sublist (TrimLeft s) s"
proof (induction s rule: TrimLeft.induct)
  case (1 s)
  show ?case
  proof (cases "leading_space s = 0")
    case True
    then show ?thesis by (simp add: TrimLeft.simps [of s])
  next
    case False
    with "1.IH" have "sublist (TrimLeft (drop (leading_space s) s)) (drop (leading_space s) s)"
      by simp
    then have "sublist (TrimLeft (drop (leading_space s) s)) s"
      by (rule sublist_trans) simp
    with False show ?thesis by (simp add: TrimLeft.simps [of s])
  qed
qed

lemma TrimRight_sublist: "sublist (TrimRight s) s"
proof (induction s rule: TrimRight.induct)
  case (1 s)
  show ?case
  proof (cases "trailing_space s = 0")
    case True
    then show ?thesis by (simp add: TrimRight.simps [of s])
  next
    case False
    with "1.IH"
    have "sublist (TrimRight (take (length s - trailing_space s) s)) (take (length s - trailing_space s) s)"
      by simp
    then have "sublist (TrimRight (take (length s - trailing_space s) s)) s"
      by (rule sublist_trans) simp
    with False show ?thesis by (simp add: TrimRight.simps [of s])
  qed
qed

lemma TrimSpace_sublist: "sublist (TrimSpace s) s"
  unfolding TrimSpace_def using TrimRight_sublist TrimLeft_sublist by (rule sublist_trans)

lemma split_loop_sublist:
  "split_loop r s = Inr toks \<Longrightarrow> \<forall>t\<in>set r. sublist t src \<Longrightarrow> sublist s src \<Longrightarrow>
    \<forall>t\<in>set toks. sublist t src"
proof (induction r s arbitrary: toks rule: split_loop.induct)
  case (1 r s)
  show ?case
  proof (cases "s = []")
    case True
    with "1.prems" show ?thesis by (simp add: split_loop.simps)
  next
    case False
    show ?thesis
    proof (cases "scan s 0 0 False")
      case (SplitAt i)
      with False "1.prems"(1)
      have rec: "split_loop (r @ [TrimSpace (take i s)]) (drop i s) = Inr toks"
        by (simp add: split_loop.simps [of r s])
      have "sublist (TrimSpace (take i s)) (take i s)" by (rule TrimSpace_sublist)
      then have "sublist (TrimSpace (take i s)) s" by (rule sublist_trans) simp
      then have "sublist (TrimSpace (take i s)) src" using "1.prems"(3) by (rule sublist_trans)
      with "1.prems"(2) have a: "\<forall>t\<in>set (r @ [TrimSpace (take i s)]). sublist t src" by simp
      have "sublist (drop i s) s" by simp
      then have b: "sublist (drop i s) src" using "1.prems"(3) by (rule sublist_trans)
      from "1.IH" [OF False SplitAt rec a b] show ?thesis .
    next
      case (AtEnd d nonsp)
      have "sublist (TrimSpace s) src"
        using TrimSpace_sublist "1.prems"(3) by (rule sublist_trans)
      with False AtEnd "1.prems"(1,2) show ?thesis
        by (auto simp add: split_loop.simps [of r s] split: if_splits)
    qed
  qed
qed

lemma split_sublist: "split s = Inr toks \<Longrightarrow> t \<in> set toks \<Longrightarrow> sublist t s"
  using split_loop_sublist [of "[]" s toks s] by (simp add: split_def)

lemma inner_sublist: "inner a = Inr t \<Longrightarrow> sublist t a"
proof -
  assume "inner a = Inr t"
  then have t: "t = take (length a - 2) (drop 1 a)" by (auto simp: inner_def split: if_splits)
  have "sublist (take (length a - 2) (drop 1 a)) (drop 1 a)" by simp
  then have "sublist (take (length a - 2) (drop 1 a)) a" by (rule sublist_trans) simp
  with t show ?thesis by simp
qed


lemma value_exprI:
  assumes "ref_of v p"
  shows "value_expr v p" "value_expr v (p @ ''.Type'')" "value_expr v (p @ ''.Aux'')"
    "value_expr v (p @ ''.Args['' @ itoa n @ '']'')"
  using assms ref_of.child [OF assms, of n] unfolding value_expr_def by blast+

lemma occ_ref_value: "occ_ref v k r \<Longrightarrow> value_expr v r"
  by (cases k) (auto simp: occ_ref_def value_expr_def)

lemma events_ok:
  "(sublist match src \<longrightarrow> ref_of v0 v \<longrightarrow> match_events match v fail toplevel = Inr es \<longrightarrow>
      list_all (event_ok src v0 fail) es)"
  "(sublist a src \<longrightarrow> ref_of v0 v \<longrightarrow> arg_events a v fail n = Inr (es1, n1) \<longrightarrow>
      list_all (event_ok src v0 fail) es1)"
  "((\<forall>a\<in>set as. sublist a src) \<longrightarrow> ref_of v0 v \<longrightarrow> args_events as v fail n = Inr (es2, n2) \<longrightarrow>
      list_all (event_ok src v0 fail) es2)"
proof (induction match v fail toplevel and a v fail n and as v fail n
    arbitrary: es and es1 n1 and es2 n2
    rule: match_events_arg_events_args_events.induct)
  case (1 match v fail toplevel)
  show ?case
  proof (intro impI)
    assume sub: "sublist match src" and ref: "ref_of v0 v"
      and ok: "match_events match v fail toplevel = Inr es"
    show "list_all (event_ok src v0 fail) es"
    proof (cases "hd match = CHR ''(''")
      case False
      with ok sub ref show ?thesis
        by (auto simp: match_events.simps [of match] event_ok_def occ_ref_def split: if_splits)
    next
      case True
      with ok obtain body s es' n' where
        ne: "match \<noteq> []" and b: "inner match = Inr body" and s: "split body = Inr s" and
        sne: "s \<noteq> []" and r: "args_events (tl s) v fail 0 = Inr (es', n')" and
        es: "es = (if toplevel then []
                   else [Emit (''if '' @ v @ ''.Op != Op'' @ hd s @ '' '' @ fail)]) @ es'"
        by (auto simp: match_events.simps [of match] split: if_splits sum.splits)
      have body: "sublist body src"
        using inner_sublist [OF b] sub by (rule sublist_trans)
      have toks: "sublist t src" if "t \<in> set s" for t
        using split_sublist [OF s that] body by (rule sublist_trans)
      from sne have "hd s \<in> set s" "set (tl s) \<subseteq> set s" by (auto simp: list.set_sel(2))
      with toks have hd: "sublist (hd s) src" and tl: "\<forall>a\<in>set (tl s). sublist a src" by auto
      from "1.IH" [OF ne _ b s sne] True r tl ref
      have "list_all (event_ok src v0 fail) es'" by simp
      moreover have "event_ok src v0 fail (Emit (''if '' @ v @ ''.Op != Op'' @ hd s @ '' '' @ fail))"
        unfolding event_ok_def using ref hd by auto
      ultimately show ?thesis using es by simp
    qed
  qed
next
  case (2 a v fail argnum)
  show ?case
  proof (intro impI)
    assume sub: "sublist a src" and ref: "ref_of v0 v"
      and ok: "arg_events a v fail argnum = Inr (es1, n1)"
    have in1: "sublist t src" if "inner a = Inr t" for t
      using inner_sublist [OF that] sub by (rule sublist_trans)
    have in2: "sublist c src" if "inner a = Inr t" "inner t = Inr c" for t c
      using inner_sublist [OF that(2)] in1 [OF that(1)] by (rule sublist_trans)
    show "list_all (event_ok src v0 fail) es1"
    proof (cases "hd a = CHR ''<'' \<or> hd a = CHR ''['' \<or> hd a = CHR ''{''")
      case True
      have forms: "event_ok src v0 fail (Emit (''if '' @ v @ ''.Type != '' @ c @ '' '' @ fail))"
        "event_ok src v0 fail (Emit (''if '' @ v @ ''.Aux != '' @ c @ '' '' @ fail))"
        "event_ok src v0 fail (Emit (''if '' @ v @ ''.Args['' @ itoa argnum @ ''] != '' @ c @ '' '' @ fail))"
        "event_ok src v0 fail (Occ TypePos c (v @ ''.Type''))"
        "event_ok src v0 fail (Occ AuxPos c (v @ ''.Aux''))"
        if "sublist c src" for c
      proof -
        from value_exprI(2) [OF ref] that
        have "\<exists>r x. value_expr v0 r \<and> sublist x src \<and>
            ''if '' @ v @ ''.Type != '' @ c @ '' '' @ fail = ''if '' @ r @ '' != '' @ x @ '' '' @ fail"
          by (intro exI [of _ "v @ ''.Type''"] exI [of _ c]) simp
        then show "event_ok src v0 fail (Emit (''if '' @ v @ ''.Type != '' @ c @ '' '' @ fail))"
          unfolding event_ok_def by simp
        from value_exprI(3) [OF ref] that
        have "\<exists>r x. value_expr v0 r \<and> sublist x src \<and>
            ''if '' @ v @ ''.Aux != '' @ c @ '' '' @ fail = ''if '' @ r @ '' != '' @ x @ '' '' @ fail"
          by (intro exI [of _ "v @ ''.Aux''"] exI [of _ c]) simp
        then show "event_ok src v0 fail (Emit (''if '' @ v @ ''.Aux != '' @ c @ '' '' @ fail))"
          unfolding event_ok_def by simp
        from value_exprI(4) [OF ref, of argnum] that
        have "\<exists>r x. value_expr v0 r \<and> sublist x src \<and>
            ''if '' @ v @ ''.Args['' @ itoa argnum @ ''] != '' @ c @ '' '' @ fail =
            ''if '' @ r @ '' != '' @ x @ '' '' @ fail"
          by (intro exI [of _ "v @ ''.Args['' @ itoa argnum @ '']''"] exI [of _ c]) simp
        then show "event_ok src v0 fail
            (Emit (''if '' @ v @ ''.Args['' @ itoa argnum @ ''] != '' @ c @ '' '' @ fail))"
          unfolding event_ok_def by simp
        from ref that
        show "event_ok src v0 fail (Occ TypePos c (v @ ''.Type''))"
          "event_ok src v0 fail (Occ AuxPos c (v @ ''.Aux''))"
          unfolding event_ok_def occ_ref_def by auto
      qed
      from True ok show ?thesis
        using forms in1 in2
        by (auto simp: arg_events.simps [of a] split: if_splits sum.splits)
    next
      case False
      with ok obtain ne: "a \<noteq> []"
        and r: "match_events a (v @ ''.Args['' @ itoa argnum @ '']'') fail False = Inr es1"
        by (auto simp: arg_events.simps [of a] split: if_splits sum.splits)
      from ref have "ref_of v0 (v @ ''.Args['' @ itoa argnum @ '']'')" by (rule ref_of.child)
      with "2.IH" [OF ne] False r sub show ?thesis by simp
    qed
  qed
next
  case (3 v fail argnum)
  then show ?case by simp
next
  case (4 a as v fail argnum)
  show ?case
  proof (intro impI)
    assume sub: "\<forall>a\<in>set (a # as). sublist a src" and ref: "ref_of v0 v"
      and ok: "args_events (a # as) v fail argnum = Inr (es2, n2)"
    then obtain e1 na e2 where
      a: "arg_events a v fail argnum = Inr (e1, na)" and
      r: "args_events as v fail na = Inr (e2, n2)" and
      es: "es2 = e1 @ e2"
      by (auto split: sum.splits)
    from "4.IH"(1) a ref sub have "list_all (event_ok src v0 fail) e1" by simp
    moreover from "4.IH"(2) [OF a refl] r ref sub have "list_all (event_ok src v0 fail) e2" by simp
    ultimately show "list_all (event_ok src v0 fail) es2" using es by simp
  qed
qed

lemma rule_events_ok:
  "match_events match v fail toplevel = Inr es \<Longrightarrow> list_all (event_ok match v fail) es"
  using events_ok(1) [of match match v v fail toplevel es] ref_of.root [of v] by simp

lemma env_after_ok: "env_ok v m \<Longrightarrow> event_ok src v fail e \<Longrightarrow> env_ok v (env_after m e)"
  by (cases e)
    (auto simp: env_ok_def event_ok_def env_after_def dest: occ_ref_value split: option.splits)

lemma stmt_for_ok:
  "env_ok v m \<Longrightarrow> event_ok src v fail e \<Longrightarrow> match_stmt src v fail (stmt_for fail m e)"
proof (cases e)
  case (Occ k x r)
  assume "env_ok v m" "event_ok src v fail e"
  with Occ have "sublist x src" "value_expr v r" "\<And>u. m x = Some u \<Longrightarrow> value_expr v u"
    by (auto simp: env_ok_def event_ok_def dest: occ_ref_value)
  with Occ show ?thesis
    unfolding match_stmt_def stmt_for_def by (cases "m x") auto
next
  case (Emit c)
  assume "env_ok v m" "event_ok src v fail e"
  with Emit show ?thesis
    unfolding match_stmt_def stmt_for_def event_ok_def by auto
qed

lemma thread_ok:
  "env_ok v m \<Longrightarrow> list_all (event_ok src v fail) es \<Longrightarrow>
    list_all (match_stmt src v fail) (thread fail m es)"
proof (induction es arbitrary: m)
  case Nil
  then show ?case by simp
next
  case (Cons e es)
  then show ?case using env_after_ok [of v m src fail e] stmt_for_ok [of v m src fail e] by simp
qed

lemma rule_thread_ok:
  assumes "match_events match ''v'' fail True = Inr es"
  shows "list_all (match_stmt match ''v'' fail) (thread fail Map.empty es)"
proof -
  have "env_ok ''v'' Map.empty" by (simp add: env_ok_def)
  then show ?thesis using rule_events_ok [OF assms] by (rule thread_ok)
qed

lemma ref_of_cases: "ref_of ''v'' p \<Longrightarrow> p = ''v'' \<or> (\<exists>z. p = ''v.Args['' @ z)"
  by (induction rule: ref_of.induct) auto

lemma value_expr_cases:
  "value_expr ''v'' r \<Longrightarrow>
    r = ''v'' \<or> r = ''v.Type'' \<or> r = ''v.Aux'' \<or> (\<exists>z. r = ''v.Args['' @ z)"
proof -
  assume "value_expr ''v'' r"
  then obtain p where p: "ref_of ''v'' p" and r: "r = p \<or> r = p @ ''.Type'' \<or> r = p @ ''.Aux''"
    unfolding value_expr_def by blast
  from ref_of_cases [OF p] show ?thesis
  proof
    assume "p = ''v''"
    with r show ?thesis by auto
  next
    assume "\<exists>z. p = ''v.Args['' @ z"
    then obtain z where "p = ''v.Args['' @ z" by blast
    with r have "r = ''v.Args['' @ z \<or> r = ''v.Args['' @ (z @ ''.Type'') \<or>
        r = ''v.Args['' @ (z @ ''.Aux'')"
      by simp
    then show ?thesis by blast
  qed
qed

subsection \<open>One environment for the names of a rule\<close>

text \<open>
  Claim C1 says that a name in type- or aux-constraint position and the same name in
  ordinary-variable position are bound in independent namespaces.  The source keeps one
  map \<^verbatim>\<open>m\<close> for all three.  Counterexample: in \<^verbatim>\<open>(Add <t> t)\<close> the type constraint binds
  \<^verbatim>\<open>t\<close> to \<^verbatim>\<open>v.Type\<close>, and the ordinary variable \<^verbatim>\<open>t\<close> then compiles to a comparison of the
  first child with \<^verbatim>\<open>v.Type\<close>, not to the binding \<^verbatim>\<open>t := v.Args[0]\<close> that it compiles to in
  \<^verbatim>\<open>(Add t)\<close>.
\<close>

theorem type_name_captures_variable_counterexample:
  "genMatch ''(Add t)'' ''{\<newline>goto end0\<newline>}\<newline>'' = Inr [''t := v.Args[0]\<newline>''] \<and>
   genMatch ''(Add <t> t)'' ''{\<newline>goto end0\<newline>}\<newline>'' =
     Inr [''t := v.Type\<newline>'', ''if v.Args[0] != v.Type {\<newline>goto end0\<newline>}\<newline>'']"
  by code_simp

text \<open>
  Claim C1, amended.  The names in type-constraint, aux-constraint and ordinary-variable
  position share the one environment of the rule.  Whenever \<^verbatim>\<open>genMatch0\<close> returns, its
  output has one statement for each event of the match expression, in their order, and
  the statement of an occurrence of a name \<open>x\<close> is decided by all the occurrences of \<open>x\<close>
  before it in the whole expression, whatever their kinds and at whatever depth of
  nesting they are: it is the binding \<^verbatim>\<open>x := r\<close> if \<open>x\<close> is not in the map at the start and
  does not occur before, and otherwise the guard \<^verbatim>\<open>if r != u fail\<close> against the expression
  \<open>u\<close> that \<open>x\<close> was bound to.  So of two occurrences of one name, of any two kinds, where
  the name is unbound before the earlier one, the earlier one compiles to the binding and
  the later one to a guard against the expression of the earlier one, never to a fresh
  binding.  The expression of an occurrence is a value \<^verbatim>\<open>v.Args[i]...Args[j]\<close> for an
  ordinary variable, the \<^verbatim>\<open>.Type\<close> field of one for a type constraint and the \<^verbatim>\<open>.Aux\<close> field
  of one for an aux constraint (\<open>event_ok\<close>), and the returned map binds each name to what
  \<open>bound_at\<close> gives for all the events.
\<close>

theorem match_names_share_one_environment:
  assumes "genMatch0 match v fail m toplevel = Inr (out, m')"
  shows "\<exists>es. match_events match v fail toplevel = Inr es \<and> length out = length es \<and>
    list_all (event_ok match v fail) es \<and>
    (\<forall>x. m' x = bound_at m es x) \<and>
    (\<forall>i<length es.
       out ! i =
         (case es ! i of
            Emit c \<Rightarrow> c
          | Occ k x r \<Rightarrow>
              (case bound_at m (take i es) x of
                 None \<Rightarrow> x @ '' := '' @ r @ ''\<newline>''
               | Some u \<Rightarrow> ''if '' @ r @ '' != '' @ u @ '' '' @ fail))) \<and>
    (\<forall>i j k k' x r r'.
       i < j \<and> j < length es \<and> es ! i = Occ k x r \<and> es ! j = Occ k' x r' \<and>
       bound_at m (take i es) x = None \<longrightarrow>
       out ! i = x @ '' := '' @ r @ ''\<newline>'' \<and>
       out ! j = ''if '' @ r' @ '' != '' @ r @ '' '' @ fail)"
proof -
  from match_run_events [OF assms] obtain es where
    es: "match_events match v fail toplevel = Inr es" and
    out: "out = thread fail m es" and m': "m' = foldl env_after m es"
    by blast
  have nth: "out ! i =
         (case es ! i of
            Emit c \<Rightarrow> c
          | Occ k x r \<Rightarrow>
              (case bound_at m (take i es) x of
                 None \<Rightarrow> x @ '' := '' @ r @ ''\<newline>''
               | Some u \<Rightarrow> ''if '' @ r @ '' != '' @ u @ '' '' @ fail))" if "i < length es" for i
    using that out
    by (simp add: thread_nth stmt_for_def env_after_events split: event.splits)
  have pair: "out ! i = x @ '' := '' @ r @ ''\<newline>'' \<and>
       out ! j = ''if '' @ r' @ '' != '' @ r @ '' '' @ fail"
    if "i < j" "j < length es" "es ! i = Occ k x r" "es ! j = Occ k' x r'"
      "bound_at m (take i es) x = None" for i j k k' x r r'
  proof -
    from that have "bound_at m (take j es) x = Some r"
      by (intro bound_at_later [of i j es k x r m]) simp_all
    with that nth [of i] nth [of j] show ?thesis by simp
  qed
  from out have "length out = length es" by simp
  moreover from m' have "\<forall>x. m' x = bound_at m es x" by (simp add: env_after_events)
  moreover note rule_events_ok [OF es]
  ultimately show ?thesis using es nth pair by blast
qed

text \<open>
  Witness for C1 (amended): in \<^verbatim>\<open>(Add <t> (Mul t y))\<close> the name \<^verbatim>\<open>t\<close> is a type constraint of
  the outer node and an ordinary variable of the inner one; the inner occurrence compiles
  to a guard against \<^verbatim>\<open>v.Type\<close>, and \<^verbatim>\<open>t\<close> is still bound to \<^verbatim>\<open>v.Type\<close> at the end.
\<close>

theorem match_names_share_one_environment_witness:
  "genMatch ''(Add <t> (Mul t y))'' ''F'' =
     Inr [''t := v.Type\<newline>'', ''if v.Args[0].Op != OpMul F'',
          ''if v.Args[0].Args[0] != v.Type F'', ''y := v.Args[0].Args[1]\<newline>''] \<and>
   match_events ''(Add <t> (Mul t y))'' ''v'' ''F'' True =
     Inr [Occ TypePos ''t'' ''v.Type'', Emit ''if v.Args[0].Op != OpMul F'',
          Occ VarPos ''t'' ''v.Args[0].Args[0]'', Occ VarPos ''y'' ''v.Args[0].Args[1]''] \<and>
   (\<exists>m'. genMatch0 ''(Add <t> (Mul t y))'' ''v'' ''F'' Map.empty True =
      Inr ([''t := v.Type\<newline>'', ''if v.Args[0].Op != OpMul F'',
            ''if v.Args[0].Args[0] != v.Type F'', ''y := v.Args[0].Args[1]\<newline>''], m') \<and>
      m' ''t'' = Some ''v.Type'' \<and> m' ''y'' = Some ''v.Args[0].Args[1]'')"
proof -
  have run: "genMatch ''(Add <t> (Mul t y))'' ''F'' =
     Inr [''t := v.Type\<newline>'', ''if v.Args[0].Op != OpMul F'',
          ''if v.Args[0].Args[0] != v.Type F'', ''y := v.Args[0].Args[1]\<newline>'']"
    by code_simp
  have ev: "match_events ''(Add <t> (Mul t y))'' ''v'' ''F'' True =
     Inr [Occ TypePos ''t'' ''v.Type'', Emit ''if v.Args[0].Op != OpMul F'',
          Occ VarPos ''t'' ''v.Args[0].Args[0]'', Occ VarPos ''y'' ''v.Args[0].Args[1]'']"
    by code_simp
  from genMatch_run [OF run] obtain m' where
    m': "genMatch0 ''(Add <t> (Mul t y))'' ''v'' ''F'' Map.empty True =
      Inr ([''t := v.Type\<newline>'', ''if v.Args[0].Op != OpMul F'',
            ''if v.Args[0].Args[0] != v.Type F'', ''y := v.Args[0].Args[1]\<newline>''], m')"
    by blast
  from match_names_share_one_environment [OF m'] ev
  have "\<forall>x. m' x = bound_at Map.empty
     [Occ TypePos ''t'' ''v.Type'', Emit ''if v.Args[0].Op != OpMul F'',
      Occ VarPos ''t'' ''v.Args[0].Args[0]'', Occ VarPos ''y'' ''v.Args[0].Args[1]''] x"
    by auto
  then have "m' ''t'' = Some ''v.Type''" "m' ''y'' = Some ''v.Args[0].Args[1]''"
    by (simp_all add: bound_at_def)
  with run ev m' show ?thesis by blast
qed

subsection \<open>No check of the number of children\<close>

text \<open>
  Claim C2 says that every positional child access in the emitted match code is preceded
  by a check of the index against the number of children.  Counterexample: the pattern
  \<^verbatim>\<open>(Add x y z)\<close> compiles to three bindings that index \<^verbatim>\<open>v.Args\<close> at 0, 1 and 2 and to
  nothing else; no statement of the output is a conditional, so none tests the number of
  children.
\<close>

theorem positional_access_unchecked_counterexample:
  "genMatch ''(Add x y z)'' ''{\<newline>goto end0\<newline>}\<newline>'' =
     Inr [''x := v.Args[0]\<newline>'', ''y := v.Args[1]\<newline>'', ''z := v.Args[2]\<newline>''] \<and>
   list_all (\<lambda>c. \<not> prefix ''if '' c)
     [''x := v.Args[0]\<newline>'', ''y := v.Args[1]\<newline>'', ''z := v.Args[2]\<newline>'']"
  by code_simp

text \<open>
  Claim C2, amended.  The match compiler adds no check of the number of children.  Every
  statement that \<^verbatim>\<open>genMatch\<close> writes for a match expression is one of the four statements
  of \<open>match_stmt\<close>: a binding of a name of the rule to a value \<^verbatim>\<open>v.Args[i]...Args[j]\<close> or to
  the \<^verbatim>\<open>.Type\<close> or \<^verbatim>\<open>.Aux\<close> field of one, or a guard that jumps to the rule's fallthrough
  target and compares such an expression, with \<^verbatim>\<open>!=\<close>, with an expression of that kind
  bound earlier or with code copied from the rule, or the \<^verbatim>\<open>.Op\<close> field of a value with
  \<^verbatim>\<open>Op\<close> and an operator copied from the rule.  The children are indexed directly; nothing
  that the generator writes of its own reads the number of children, so an access out of
  range is not turned into a failure of the match.
\<close>

theorem match_emits_only_bindings_and_guards:
  assumes "genMatch match fail = Inr out"
  shows "list_all (match_stmt match ''v'' fail) out"
proof -
  from genMatch_run [OF assms] obtain m' where
    "genMatch0 match ''v'' fail Map.empty True = Inr (out, m')"
    by blast
  from match_run_events [OF this] obtain es where
    es: "match_events match ''v'' fail True = Inr es" and out: "out = thread fail Map.empty es"
    by blast
  from rule_thread_ok [OF es] show ?thesis unfolding out .
qed

text \<open>
  Witness for C2 (amended): the pattern \<^verbatim>\<open>(Add x (Mul x {c}))\<close>, with one statement of each
  kind.
\<close>

theorem match_emits_only_bindings_and_guards_witness:
  "genMatch ''(Add x (Mul x {c}))'' ''F'' =
     Inr [''x := v.Args[0]\<newline>'', ''if v.Args[1].Op != OpMul F'',
          ''if v.Args[1].Args[0] != v.Args[0] F'', ''if v.Args[1].Args[1] != c F''] \<and>
   list_all (match_stmt ''(Add x (Mul x {c}))'' ''v'' ''F'')
     [''x := v.Args[0]\<newline>'', ''if v.Args[1].Op != OpMul F'',
      ''if v.Args[1].Args[0] != v.Args[0] F'', ''if v.Args[1].Args[1] != c F'']"
proof -
  have run: "genMatch ''(Add x (Mul x {c}))'' ''F'' =
     Inr [''x := v.Args[0]\<newline>'', ''if v.Args[1].Op != OpMul F'',
          ''if v.Args[1].Args[0] != v.Args[0] F'', ''if v.Args[1].Args[1] != c F'']"
    by code_simp
  from match_emits_only_bindings_and_guards [OF run] run show ?thesis by simp
qed

text \<open>
  A guard that tests the number of children is not a statement of the match code of a
  rule that does not contain that test itself: for the pattern \<^verbatim>\<open>(Add x y)\<close> and the
  fallthrough block of rule 0, neither the operator guard extended by a test of
  \<^verbatim>\<open>len(v.Args)\<close> nor that test alone is one.
\<close>

lemma arity_check_is_no_match_stmt:
  "\<not> match_stmt ''(Add x y)'' ''v'' ''{\<newline>goto end0\<newline>}\<newline>''
      ''if v.Op != OpAdd || len(v.Args) < 3 {\<newline>goto end0\<newline>}\<newline>''"
proof
  define f where "f = ''{\<newline>goto end0\<newline>}\<newline>''"
  let ?c = "''if v.Op != OpAdd || len(v.Args) < 3 '' @ f"
  assume "match_stmt ''(Add x y)'' ''v'' ''{\<newline>goto end0\<newline>}\<newline>''
      ''if v.Op != OpAdd || len(v.Args) < 3 {\<newline>goto end0\<newline>}\<newline>''"
  then have "match_stmt ''(Add x y)'' ''v'' f ?c" by (simp add: f_def)
  then consider
    (bind) x r where "?c = x @ '' := '' @ r @ ''\<newline>''"
  | (guard) r y where "value_expr ''v'' r" "?c = ''if '' @ r @ '' != '' @ y @ '' '' @ f"
  | (op) p y where "ref_of ''v'' p" "sublist y ''(Add x y)''"
      "?c = ''if '' @ p @ ''.Op != Op'' @ y @ '' '' @ f"
    unfolding match_stmt_def by auto
  then show False
  proof cases
    case bind
    then have "CHR '':'' \<in> set ?c" by simp
    then show False by (simp add: f_def)
  next
    case guard
    from value_expr_cases [OF guard(1)] guard(2) show False by (auto simp: f_def)
  next
    case op
    from ref_of_cases [OF op(1)] show False
    proof
      assume "p = ''v''"
      with op(3) have "''Add || len(v.Args) < 3'' @ '' '' @ f = y @ '' '' @ f"
        by simp
      then have "y = ''Add || len(v.Args) < 3''" by simp
      with op(2) have "sublist ''Add || len(v.Args) < 3'' ''(Add x y)''" by simp
      from sublist_length_le [OF this] show False by simp
    next
      assume "\<exists>z. p = ''v.Args['' @ z"
      with op(3) show False by (auto simp: f_def)
    qed
  qed
qed

lemma length_test_is_no_match_stmt:
  "\<not> match_stmt ''(Add x y)'' ''v'' ''{\<newline>goto end0\<newline>}\<newline>''
      ''if len(v.Args) < 2 {\<newline>goto end0\<newline>}\<newline>''"
proof
  define f where "f = ''{\<newline>goto end0\<newline>}\<newline>''"
  let ?c = "''if len(v.Args) < 2 '' @ f"
  assume "match_stmt ''(Add x y)'' ''v'' ''{\<newline>goto end0\<newline>}\<newline>''
      ''if len(v.Args) < 2 {\<newline>goto end0\<newline>}\<newline>''"
  then have "match_stmt ''(Add x y)'' ''v'' f ?c" by (simp add: f_def)
  then consider
    (bind) x r where "?c = x @ '' := '' @ r @ ''\<newline>''"
  | (guard) r y where "value_expr ''v'' r" "?c = ''if '' @ r @ '' != '' @ y @ '' '' @ f"
  | (op) p y where "ref_of ''v'' p"
      "?c = ''if '' @ p @ ''.Op != Op'' @ y @ '' '' @ f"
    unfolding match_stmt_def by auto
  then show False
  proof cases
    case bind
    then have "CHR '':'' \<in> set ?c" by simp
    then show False by (simp add: f_def)
  next
    case guard
    from value_expr_cases [OF guard(1)] guard(2) show False by (auto simp: f_def)
  next
    case op
    from ref_of_cases [OF op(1)] op(2) show False by (auto simp: f_def)
  qed
qed

subsection \<open>Repeated variables\<close>

text \<open>
  Claim C3 says that the first occurrence of an ordinary-variable name compiles to a
  binding and every later one to a guard against the bound reference.  Counterexample:
  in \<^verbatim>\<open>(Add <x> x x)\<close> the name is already bound by the type constraint, so the first
  ordinary occurrence of \<^verbatim>\<open>x\<close> compiles to a guard against \<^verbatim>\<open>v.Type\<close> and not to a binding,
  and the second is compared with \<^verbatim>\<open>v.Type\<close> as well, not with the first child.
\<close>

theorem first_variable_occurrence_guard_counterexample:
  "genMatch ''(Add <x> x x)'' ''{\<newline>goto end0\<newline>}\<newline>'' =
     Inr [''x := v.Type\<newline>'',
          ''if v.Args[0] != v.Type {\<newline>goto end0\<newline>}\<newline>'',
          ''if v.Args[1] != v.Type {\<newline>goto end0\<newline>}\<newline>'']"
  by code_simp

text \<open>
  Claim C3, amended.  Throughout the match expression of a rule, at whatever depth, an
  occurrence of a name \<open>x\<close> in ordinary-variable position, standing for the reference
  \<open>r\<close>, compiles to the binding \<^verbatim>\<open>x := r\<close> if \<open>x\<close> is not bound when the compiler reaches it,
  and to the guard \<^verbatim>\<open>if r != u fail\<close> if it is bound to \<open>u\<close>: a comparison of references
  with \<^verbatim>\<open>!=\<close> that jumps to the rule's fallthrough target.  A name that is bound stays
  bound to the same expression up to the end of the rule (the returned map has it, and
  the map only grows), so no occurrence binds it again.  Hence, of two ordinary
  occurrences of \<open>x\<close>, where \<open>x\<close> is unbound before the earlier one (it is not in the map at
  the start and no occurrence of any kind, such as a type constraint \<^verbatim>\<open><x>\<close>, comes
  before), the earlier one is the binding to its reference \<open>r\<close>, the later one is the guard
  against \<open>r\<close>, and \<open>x\<close> is bound to \<open>r\<close> at the end.
\<close>

theorem variable_binds_once_then_guards:
  assumes "genMatch0 match v fail m toplevel = Inr (out, m')"
  shows "m \<subseteq>\<^sub>m m' \<and>
    (\<exists>es. match_events match v fail toplevel = Inr es \<and> length out = length es \<and>
      list_all (event_ok match v fail) es \<and>
      (\<forall>i x r. i < length es \<and> es ! i = Occ VarPos x r \<and> bound_at m (take i es) x = None \<longrightarrow>
         out ! i = x @ '' := '' @ r @ ''\<newline>'') \<and>
      (\<forall>j x r u. j < length es \<and> es ! j = Occ VarPos x r \<and> bound_at m (take j es) x = Some u \<longrightarrow>
         out ! j = ''if '' @ r @ '' != '' @ u @ '' '' @ fail \<and> m' x = Some u) \<and>
      (\<forall>i j x r r'.
         i < j \<and> j < length es \<and> es ! i = Occ VarPos x r \<and> es ! j = Occ VarPos x r' \<and>
         bound_at m (take i es) x = None \<longrightarrow>
         out ! i = x @ '' := '' @ r @ ''\<newline>'' \<and>
         out ! j = ''if '' @ r' @ '' != '' @ r @ '' '' @ fail \<and>
         m' x = Some r))"
proof -
  from match_run_events [OF assms] obtain es where
    es: "match_events match v fail toplevel = Inr es" and
    out: "out = thread fail m es" and m': "m' = foldl env_after m es"
    by blast
  have nth: "out ! i =
           (case bound_at m (take i es) x of
              None \<Rightarrow> x @ '' := '' @ r @ ''\<newline>''
            | Some u \<Rightarrow> ''if '' @ r @ '' != '' @ u @ '' '' @ fail)"
    if "i < length es" "es ! i = Occ VarPos x r" for i x r
    using that out
    by (simp add: thread_nth stmt_for_def env_after_events)
  have first: "out ! i = x @ '' := '' @ r @ ''\<newline>''"
    if "i < length es" "es ! i = Occ VarPos x r" "bound_at m (take i es) x = None" for i x r
    using nth [OF that(1,2)] that(3) by simp
  have later: "out ! j = ''if '' @ r @ '' != '' @ u @ '' '' @ fail \<and> m' x = Some u"
    if "j < length es" "es ! j = Occ VarPos x r" "bound_at m (take j es) x = Some u" for j x r u
    using nth [OF that(1,2)] that(3) bound_at_stays [OF that(3)] m'
    by (simp add: env_after_events)
  have pair: "out ! i = x @ '' := '' @ r @ ''\<newline>'' \<and>
         out ! j = ''if '' @ r' @ '' != '' @ r @ '' '' @ fail \<and> m' x = Some r"
    if "i < j" "j < length es" "es ! i = Occ VarPos x r" "es ! j = Occ VarPos x r'"
      "bound_at m (take i es) x = None" for i j x r r'
  proof -
    from that have j: "bound_at m (take j es) x = Some r"
      by (intro bound_at_later [of i j es VarPos x r m]) simp_all
    from that have i: "i < length es" by simp
    from first [OF i that(3,5)] later [OF that(2,4) j] show ?thesis by simp
  qed
  from assms envs_grow(1) have "m \<subseteq>\<^sub>m m'" by blast
  moreover from out have "length out = length es" by simp
  moreover note rule_events_ok [OF es]
  ultimately show ?thesis using es first later pair by blast
qed

text \<open>
  Witness for C3 (amended): in \<^verbatim>\<open>(Add x (Mul x y))\<close> the second occurrence of \<^verbatim>\<open>x\<close> is in the
  nested node; it compiles to a guard against the first child of \<^verbatim>\<open>v\<close>, to which \<^verbatim>\<open>x\<close> is
  bound at the end.
\<close>

theorem variable_binds_once_then_guards_witness:
  "genMatch ''(Add x (Mul x y))'' ''F'' =
     Inr [''x := v.Args[0]\<newline>'', ''if v.Args[1].Op != OpMul F'',
          ''if v.Args[1].Args[0] != v.Args[0] F'', ''y := v.Args[1].Args[1]\<newline>''] \<and>
   match_events ''(Add x (Mul x y))'' ''v'' ''F'' True =
     Inr [Occ VarPos ''x'' ''v.Args[0]'', Emit ''if v.Args[1].Op != OpMul F'',
          Occ VarPos ''x'' ''v.Args[1].Args[0]'', Occ VarPos ''y'' ''v.Args[1].Args[1]''] \<and>
   (\<exists>m'. genMatch0 ''(Add x (Mul x y))'' ''v'' ''F'' Map.empty True =
      Inr ([''x := v.Args[0]\<newline>'', ''if v.Args[1].Op != OpMul F'',
            ''if v.Args[1].Args[0] != v.Args[0] F'', ''y := v.Args[1].Args[1]\<newline>''], m') \<and>
      m' ''x'' = Some ''v.Args[0]'')"
proof -
  have run: "genMatch ''(Add x (Mul x y))'' ''F'' =
     Inr [''x := v.Args[0]\<newline>'', ''if v.Args[1].Op != OpMul F'',
          ''if v.Args[1].Args[0] != v.Args[0] F'', ''y := v.Args[1].Args[1]\<newline>'']"
    by code_simp
  have ev: "match_events ''(Add x (Mul x y))'' ''v'' ''F'' True =
     Inr [Occ VarPos ''x'' ''v.Args[0]'', Emit ''if v.Args[1].Op != OpMul F'',
          Occ VarPos ''x'' ''v.Args[1].Args[0]'', Occ VarPos ''y'' ''v.Args[1].Args[1]'']"
    by code_simp
  from genMatch_run [OF run] obtain m' where
    m': "genMatch0 ''(Add x (Mul x y))'' ''v'' ''F'' Map.empty True =
      Inr ([''x := v.Args[0]\<newline>'', ''if v.Args[1].Op != OpMul F'',
            ''if v.Args[1].Args[0] != v.Args[0] F'', ''y := v.Args[1].Args[1]\<newline>''], m')"
    by blast
  from variable_binds_once_then_guards [OF m'] obtain es where
    es: "match_events ''(Add x (Mul x y))'' ''v'' ''F'' True = Inr es" and
    pair: "\<forall>i j x r r'.
         i < j \<and> j < length es \<and> es ! i = Occ VarPos x r \<and> es ! j = Occ VarPos x r' \<and>
         bound_at Map.empty (take i es) x = None \<longrightarrow>
         [''x := v.Args[0]\<newline>'', ''if v.Args[1].Op != OpMul F'',
          ''if v.Args[1].Args[0] != v.Args[0] F'', ''y := v.Args[1].Args[1]\<newline>''] ! i =
           x @ '' := '' @ r @ ''\<newline>'' \<and>
         [''x := v.Args[0]\<newline>'', ''if v.Args[1].Op != OpMul F'',
          ''if v.Args[1].Args[0] != v.Args[0] F'', ''y := v.Args[1].Args[1]\<newline>''] ! j =
           ''if '' @ r' @ '' != '' @ r @ '' '' @ ''F'' \<and>
         m' x = Some r"
    by blast
  from es ev have es_eq: "es = [Occ VarPos ''x'' ''v.Args[0]'', Emit ''if v.Args[1].Op != OpMul F'',
          Occ VarPos ''x'' ''v.Args[1].Args[0]'', Occ VarPos ''y'' ''v.Args[1].Args[1]'']"
    by simp
  from pair [rule_format, of 0 2 "''x''" "''v.Args[0]''" "''v.Args[1].Args[0]''"]
  have "m' ''x'' = Some ''v.Args[0]''"
    by (simp add: es_eq bound_at_def)
  with run ev m' show ?thesis by blast
qed

subsection \<open>The positional index\<close>

text \<open>
  Claim C10.  In the argument loop of \<^verbatim>\<open>genMatch0\<close> the positional index \<^verbatim>\<open>argnum\<close> goes up
  by exactly one for each literal pin and each variable or sub-pattern argument and stays
  as it is for a type or aux constraint: the argument after the prefix \<open>pre\<close> is compiled
  at index \<open>n\<close> plus the number of positional arguments of \<open>pre\<close>.  A type or aux
  constraint compiles to one statement on the current node's own \<^verbatim>\<open>.Type\<close> or \<^verbatim>\<open>.Aux\<close>
  field (a guard, or a binding when its name is new), a literal pin to a guard on
  \<^verbatim>\<open>v.Args[index]\<close>, and a variable or sub-pattern is compiled against \<^verbatim>\<open>v.Args[index]\<close>.
\<close>

theorem argnum_counts_positional_arguments:
  assumes "genMatchArgs (pre @ a # post) v fail m n = Inr (out, m', n')"
  shows "\<exists>o1 m1 o2 m2 o3.
      genMatchArgs pre v fail m n = Inr (o1, m1, n + length (filter positional pre)) \<and>
      genMatchArg a v fail m1 (n + length (filter positional pre)) =
        Inr (o2, m2, n + length (filter positional pre) + (if positional a then 1 else 0)) \<and>
      genMatchArgs post v fail m2 (n + length (filter positional pre) + (if positional a then 1 else 0)) =
        Inr (o3, m', n') \<and>
      out = o1 @ o2 @ o3 \<and>
      n' = n + length (filter positional (pre @ a # post)) \<and>
      (hd a = CHR ''<'' \<longrightarrow>
        (\<exists>x. o2 = [''if '' @ v @ ''.Type != '' @ x @ '' '' @ fail] \<or>
             o2 = [x @ '' := '' @ v @ ''.Type\<newline>''])) \<and>
      (hd a = CHR ''['' \<longrightarrow>
        (\<exists>x. o2 = [''if '' @ v @ ''.Aux != '' @ x @ '' '' @ fail] \<or>
             o2 = [x @ '' := '' @ v @ ''.Aux\<newline>''])) \<and>
      (hd a = CHR ''{'' \<longrightarrow>
        (\<exists>code. o2 = [''if '' @ v @ ''.Args['' @ itoa (n + length (filter positional pre)) @
                        ''] != '' @ code @ '' '' @ fail])) \<and>
      (positional a \<and> hd a \<noteq> CHR ''{'' \<longrightarrow>
        genMatch0 a (v @ ''.Args['' @ itoa (n + length (filter positional pre)) @ '']'') fail m1 False =
          Inr (o2, m2))"
proof -
  let ?k = "n + length (filter positional pre)"
  from assms obtain o1 m1 n1 o23 where
    pre: "genMatchArgs pre v fail m n = Inr (o1, m1, n1)" and
    rest: "genMatchArgs (a # post) v fail m1 n1 = Inr (o23, m', n')" and
    out1: "out = o1 @ o23"
    by (auto simp: genMatchArgs_append [of pre "a # post"] split: sum.splits)
  from rest obtain o2 m2 n2 o3 where
    a: "genMatchArg a v fail m1 n1 = Inr (o2, m2, n2)" and
    post: "genMatchArgs post v fail m2 n2 = Inr (o3, m', n')" and
    out2: "o23 = o2 @ o3"
    by (auto split: sum.splits)
  from genMatchArgs_argnum [OF pre] have n1: "n1 = ?k" .
  from genMatchArg_argnum [OF a] n1 have n2: "n2 = ?k + (if positional a then 1 else 0)"
    by simp
  from genMatchArgs_argnum [OF assms] have n': "n' = n + length (filter positional (pre @ a # post))" .
  have ty: "hd a = CHR ''<'' \<longrightarrow>
        (\<exists>x. o2 = [''if '' @ v @ ''.Type != '' @ x @ '' '' @ fail] \<or>
             o2 = [x @ '' := '' @ v @ ''.Type\<newline>''])"
    using genMatchArg_type [OF _ a] by blast
  have au: "hd a = CHR ''['' \<longrightarrow>
        (\<exists>x. o2 = [''if '' @ v @ ''.Aux != '' @ x @ '' '' @ fail] \<or>
             o2 = [x @ '' := '' @ v @ ''.Aux\<newline>''])"
    using genMatchArg_aux [OF _ a] by blast
  have pin: "hd a = CHR ''{'' \<longrightarrow>
        (\<exists>code. o2 = [''if '' @ v @ ''.Args['' @ itoa ?k @ ''] != '' @ code @ '' '' @ fail])"
    using genMatchArg_pin [OF _ a] n1 by blast
  have sub: "positional a \<and> hd a \<noteq> CHR ''{'' \<longrightarrow>
        genMatch0 a (v @ ''.Args['' @ itoa ?k @ '']'') fail m1 False = Inr (o2, m2)"
    using genMatchArg_sub [OF _ _ _ a] n1 by (simp add: positional_def)
  from pre a post n1 n2 have
    "genMatchArgs pre v fail m n = Inr (o1, m1, ?k)"
    "genMatchArg a v fail m1 ?k = Inr (o2, m2, ?k + (if positional a then 1 else 0))"
    "genMatchArgs post v fail m2 (?k + (if positional a then 1 else 0)) = Inr (o3, m', n')"
    by simp_all
  moreover from out1 out2 have "out = o1 @ o2 @ o3" by simp
  ultimately show ?thesis using n' ty au pin sub by blast
qed

text \<open>
  Witness for C10: the arguments \<^verbatim>\<open><t> x [c] {k} y\<close>, split before \<^verbatim>\<open>[c]\<close>; the index ends
  at 3.
\<close>

theorem argnum_counts_positional_arguments_witness:
  "genMatchArgs ([''<t>'', ''x''] @ ''[c]'' # [''{k}'', ''y'']) ''v'' ''F'' Map.empty 0 =
    Inr ([''t := v.Type\<newline>'', ''x := v.Args[0]\<newline>'', ''c := v.Aux\<newline>'',
          ''if v.Args[1] != k F'', ''y := v.Args[2]\<newline>''],
         Map.empty(''t'' \<mapsto> ''v.Type'', ''x'' \<mapsto> ''v.Args[0]'', ''c'' \<mapsto> ''v.Aux'',
           ''y'' \<mapsto> ''v.Args[2]''), 3) \<and>
   (3::nat) = 0 + length (filter positional ([''<t>'', ''x''] @ ''[c]'' # [''{k}'', ''y'']))"
proof -
  have run: "genMatchArgs ([''<t>'', ''x''] @ ''[c]'' # [''{k}'', ''y'']) ''v'' ''F'' Map.empty 0 =
    Inr ([''t := v.Type\<newline>'', ''x := v.Args[0]\<newline>'', ''c := v.Aux\<newline>'',
          ''if v.Args[1] != k F'', ''y := v.Args[2]\<newline>''],
         Map.empty(''t'' \<mapsto> ''v.Type'', ''x'' \<mapsto> ''v.Args[0]'', ''c'' \<mapsto> ''v.Aux'',
           ''y'' \<mapsto> ''v.Args[2]''), 3)"
    by (simp add: genMatchArg.simps genMatch0.simps inner_def itoa.simps digit_def)
  from argnum_counts_positional_arguments [OF run]
  have "(3::nat) = 0 + length (filter positional ([''<t>'', ''x''] @ ''[c]'' # [''{k}'', ''y'']))"
    by blast
  with run show ?thesis by blast
qed

subsection \<open>The result compiler \<^verbatim>\<open>genResult0\<close>\<close>

text \<open>
  \<open>genResult0\<close> is the source's function of that name, \<open>genResultArgs\<close> its loop
  \<^verbatim>\<open>for _, a := range s[1:]\<close> and \<open>genResultArg\<close> the body of that loop.  The counter behind
  the pointer \<^verbatim>\<open>alloc *int\<close> is passed in and returned, as is the local \<^verbatim>\<open>needsType\<close>, which
  starts as \<^verbatim>\<open>false\<close> at the top level and as \<^verbatim>\<open>true\<close> in a nested node.  The result is the list
  of chunks written, the returned Go expression, and the counter.  An empty token list
  panics at \<^verbatim>\<open>s[0]\<close> in both branches.
\<close>

function genResult0 :: "string \<Rightarrow> nat \<Rightarrow> bool \<Rightarrow> error + (string list \<times> string \<times> nat)"
  and genResultArg :: "string \<Rightarrow> string \<Rightarrow> bool \<Rightarrow> nat \<Rightarrow> error + (string list \<times> bool \<times> nat)"
  and genResultArgs :: "string list \<Rightarrow> string \<Rightarrow> bool \<Rightarrow> nat \<Rightarrow> error + (string list \<times> bool \<times> nat)"
where
  "genResult0 result alloc toplevel =
    (if result = [] then Inl IndexOutOfRange
     else if hd result \<noteq> CHR ''('' then Inr ([], result, alloc)
     else
       (case inner result of
          Inl e \<Rightarrow> Inl e
        | Inr body \<Rightarrow>
       (case split body of
          Inl e \<Rightarrow> Inl e
        | Inr s \<Rightarrow>
            if s = [] then Inl IndexOutOfRange
            else if toplevel then
              (case genResultArgs (tl s) ''v'' False alloc of
                 Inl e \<Rightarrow> Inl e
               | Inr (out, needsType, alloc') \<Rightarrow>
                   Inr ([''v.Op = Op'' @ hd s @ ''\<newline>'',
                         ''v.Aux = nil\<newline>'',
                         ''v.Args = v.argstorage[:0]\<newline>''] @ out @
                        (if needsType then [''v.SetType()\<newline>''] else []),
                        ''v'', alloc'))
            else
              (case genResultArgs (tl s) (''v'' @ itoa alloc) True (alloc + 1) of
                 Inl e \<Rightarrow> Inl e
               | Inr (out, needsType, alloc') \<Rightarrow>
                   Inr ([''v'' @ itoa alloc @ '' := v.Block.NewValue(Op'' @ hd s @
                           '', TypeInvalid, nil)\<newline>''] @ out @
                        (if needsType then [''v'' @ itoa alloc @ ''.SetType()\<newline>''] else []),
                        ''v'' @ itoa alloc, alloc')))))"
| "genResultArg a v needsType alloc =
    (if a = [] then Inl IndexOutOfRange
     else if hd a = CHR ''<'' then
       (case inner a of
          Inl e \<Rightarrow> Inl e
        | Inr t \<Rightarrow>
            if t = [] then Inl IndexOutOfRange
            else if hd t = CHR ''{'' then
              (case inner t of
                 Inl e \<Rightarrow> Inl e
               | Inr t' \<Rightarrow> Inr ([v @ ''.Type = '' @ t' @ ''\<newline>''], False, alloc))
            else Inr ([v @ ''.Type = '' @ t @ ''\<newline>''], False, alloc))
     else if hd a = CHR ''['' then
       (case inner a of
          Inl e \<Rightarrow> Inl e
        | Inr x \<Rightarrow>
            if x = [] then Inl IndexOutOfRange
            else if hd x = CHR ''{'' then
              (case inner x of
                 Inl e \<Rightarrow> Inl e
               | Inr x' \<Rightarrow> Inr ([v @ ''.Aux = '' @ x' @ ''\<newline>''], needsType, alloc))
            else Inr ([v @ ''.Aux = '' @ x @ ''\<newline>''], needsType, alloc))
     else if hd a = CHR ''{'' then
       (case inner a of
          Inl e \<Rightarrow> Inl e
        | Inr code \<Rightarrow> Inr ([v @ ''.AddArg('' @ code @ '')\<newline>''], needsType, alloc))
     else
       (case genResult0 a alloc False of
          Inl e \<Rightarrow> Inl e
        | Inr (out, x, alloc') \<Rightarrow>
            Inr (out @ [v @ ''.AddArg('' @ x @ '')\<newline>''], needsType, alloc')))"
| "genResultArgs [] v needsType alloc = Inr ([], needsType, alloc)"
| "genResultArgs (a # as) v needsType alloc =
    (case genResultArg a v needsType alloc of
       Inl e \<Rightarrow> Inl e
     | Inr (out, needsType', alloc') \<Rightarrow>
         (case genResultArgs as v needsType' alloc' of
            Inl e \<Rightarrow> Inl e
          | Inr (out', needsType'', alloc'') \<Rightarrow> Inr (out @ out', needsType'', alloc'')))"
  by pat_completeness auto
termination
proof (relation "inv_image (less_than <*lex*> less_than)
    (case_sum (\<lambda>(result, alloc, toplevel). (length result, 0::nat))
      (case_sum (\<lambda>(a, v, needsType, alloc). (length a, 1))
                (\<lambda>(as, v, needsType, alloc). (sum_list (map length as), 2 + length as))))")
  show "wf (inv_image (less_than <*lex*> less_than)
    (case_sum (\<lambda>(result, alloc, toplevel). (length result, 0::nat))
      (case_sum (\<lambda>(a, v, needsType, alloc). (length a, 1))
                (\<lambda>(as, v, needsType, alloc). (sum_list (map length as), 2 + length as)))))"
    by (intro wf_inv_image wf_lex_prod wf_less_than)
next
  fix result :: string and alloc :: nat and toplevel :: bool and body s
  assume "result \<noteq> []" "inner result = Inr body" "split body = Inr s" "s \<noteq> []"
  then have "length body < length result" "sum_list (map length s) \<le> length body"
    by (auto simp: inner_def split: if_splits dest: split_lengths)
  moreover have "sum_list (map length (tl s)) \<le> sum_list (map length s)"
    by (cases s) auto
  ultimately have lt: "sum_list (map length (tl s)) < length result" by simp
  {
    assume "toplevel"
    from lt show "(Inr (Inr (tl s, ''v'', False, alloc)), Inl (result, alloc, toplevel))
      \<in> inv_image (less_than <*lex*> less_than)
      (case_sum (\<lambda>(result, alloc, toplevel). (length result, 0::nat))
        (case_sum (\<lambda>(a, v, needsType, alloc). (length a, 1))
                  (\<lambda>(as, v, needsType, alloc). (sum_list (map length as), 2 + length as))))"
      by simp
  next
    assume "\<not> toplevel"
    from lt show "(Inr (Inr (tl s, ''v'' @ itoa alloc, True, alloc + 1)), Inl (result, alloc, toplevel))
      \<in> inv_image (less_than <*lex*> less_than)
      (case_sum (\<lambda>(result, alloc, toplevel). (length result, 0::nat))
        (case_sum (\<lambda>(a, v, needsType, alloc). (length a, 1))
                  (\<lambda>(as, v, needsType, alloc). (sum_list (map length as), 2 + length as))))"
      by simp
  }
qed auto

declare genResult0.simps [simp del] genResultArg.simps [simp del]

definition genResult :: "string \<Rightarrow> error + string list" where
  "genResult result =
    (case genResult0 result 0 True of
       Inl e \<Rightarrow> Inl e
     | Inr (out, v, alloc) \<Rightarrow> Inr out)"


subsection \<open>Decimal numerals\<close>

definition is_digit :: "char \<Rightarrow> bool" where
  "is_digit c \<longleftrightarrow> c \<in> set ''0123456789''"

lemma digit_cases:
  "d < 10 \<Longrightarrow>
    d = 0 \<or> d = 1 \<or> d = 2 \<or> d = 3 \<or> d = 4 \<or> d = 5 \<or> d = 6 \<or> d = 7 \<or> d = 8 \<or> d = (9::nat)"
  by arith

lemma digit_is_digit: "d < 10 \<Longrightarrow> is_digit (digit d)"
  using digit_cases [of d] by (auto simp: digit_def is_digit_def)

lemma digit_value: "d < 10 \<Longrightarrow> of_char (digit d) = 48 + d"
  using digit_cases [of d] by (auto simp: digit_def)

lemma itoa_digits: "list_all is_digit (itoa n)"
proof (induction n rule: itoa.induct)
  case (1 n)
  show ?case
  proof (cases "n < 10")
    case True
    then show ?thesis by (simp add: itoa.simps [of n] digit_is_digit)
  next
    case False
    with "1.IH" show ?thesis by (simp add: itoa.simps [of n] digit_is_digit)
  qed
qed

lemma itoa_nonempty: "itoa n \<noteq> []"
  by (subst itoa.simps) simp

definition atoi :: "string \<Rightarrow> nat" where
  "atoi s = foldl (\<lambda>a c. 10 * a + (of_char c - 48)) 0 s"

lemma atoi_itoa: "atoi (itoa n) = n"
proof (induction n rule: itoa.induct)
  case (1 n)
  show ?case
  proof (cases "n < 10")
    case True
    then show ?thesis by (simp add: itoa.simps [of n] atoi_def digit_value)
  next
    case False
    with "1.IH" have "atoi (itoa (n div 10)) = n div 10" by simp
    with False show ?thesis by (simp add: itoa.simps [of n] atoi_def digit_value)
  qed
qed

lemma itoa_inj: "itoa a = itoa b \<Longrightarrow> a = b"
  by (metis atoi_itoa)

lemma takeWhile_digits_itoa:
  assumes "r \<noteq> []" "\<not> is_digit (hd r)"
  shows "takeWhile is_digit (itoa k @ r) = itoa k"
proof -
  have "\<forall>c\<in>set (itoa k). is_digit c" using itoa_digits [of k] by (simp add: list_all_iff)
  then have "takeWhile is_digit (itoa k @ r) = itoa k @ takeWhile is_digit r"
    by (simp add: takeWhile_append2)
  moreover from assms have "takeWhile is_digit r = []" by (cases r) auto
  ultimately show ?thesis by simp
qed

lemma itoa_prefix_unique:
  assumes "itoa k @ r = itoa n @ r'" "r \<noteq> []" "\<not> is_digit (hd r)" "r' \<noteq> []" "\<not> is_digit (hd r')"
  shows "k = n"
proof -
  have "itoa k = takeWhile is_digit (itoa k @ r)" using assms(2,3) by (simp add: takeWhile_digits_itoa)
  also have "\<dots> = takeWhile is_digit (itoa n @ r')" using assms(1) by simp
  also have "\<dots> = itoa n" using assms(4,5) by (simp add: takeWhile_digits_itoa)
  finally show ?thesis by (rule itoa_inj)
qed

subsection \<open>Properties of the result compiler\<close>

text \<open>
  \<open>own_stmt v c\<close>: the chunk \<open>c\<close> is one of the three statements that the argument loop
  writes for the node \<open>v\<close> itself.  \<open>stmt_of lo hi c\<close>: the chunk starts with the name
  \<^verbatim>\<open>v<k>\<close> of a value allocated with a counter \<open>k\<close> from \<open>lo\<close> up to, not including, \<open>hi\<close>.
\<close>

definition own_stmt :: "string \<Rightarrow> string \<Rightarrow> bool" where
  "own_stmt v c \<longleftrightarrow>
    (\<exists>x. c = v @ ''.Type = '' @ x @ ''\<newline>'' \<or> c = v @ ''.Aux = '' @ x @ ''\<newline>'' \<or>
         c = v @ ''.AddArg('' @ x @ '')\<newline>'')"

definition stmt_of :: "nat \<Rightarrow> nat \<Rightarrow> string \<Rightarrow> bool" where
  "stmt_of lo hi c \<longleftrightarrow>
    (\<exists>k r. lo \<le> k \<and> k < hi \<and> c = ''v'' @ itoa k @ r \<and> r \<noteq> [] \<and> \<not> is_digit (hd r))"

lemma stmt_of_mono:
  assumes "stmt_of lo hi c" "lo' \<le> lo" "hi \<le> hi'"
  shows "stmt_of lo' hi' c"
proof -
  from assms(1) obtain k r where "lo \<le> k" "k < hi" "c = ''v'' @ itoa k @ r" "r \<noteq> []"
    "\<not> is_digit (hd r)"
    unfolding stmt_of_def by blast
  with assms(2,3) have "lo' \<le> k \<and> k < hi' \<and> c = ''v'' @ itoa k @ r \<and> r \<noteq> [] \<and> \<not> is_digit (hd r)"
    by simp
  then show ?thesis unfolding stmt_of_def by blast
qed

lemma stmt_ofI: "lo \<le> k \<Longrightarrow> k < hi \<Longrightarrow> r \<noteq> [] \<Longrightarrow> \<not> is_digit (hd r) \<Longrightarrow> stmt_of lo hi (''v'' @ itoa k @ r)"
  unfolding stmt_of_def by blast

lemma own_stmt_stmt_of:
  assumes "own_stmt (''v'' @ itoa k) c" "lo \<le> k" "k < hi"
  shows "stmt_of lo hi c"
proof -
  from assms(1) obtain r where "c = ''v'' @ itoa k @ r" "r \<noteq> []" "\<not> is_digit (hd r)"
    unfolding own_stmt_def by (auto simp: is_digit_def)
  with assms(2,3) show ?thesis unfolding stmt_of_def by blast
qed

lemma own_stmt_not_SetType: "own_stmt v c \<Longrightarrow> c \<noteq> v @ ''.SetType()\<newline>''"
  unfolding own_stmt_def by auto

lemma stmt_of_not_top_SetType: "stmt_of lo hi c \<Longrightarrow> c \<noteq> ''v.SetType()\<newline>''"
proof
  assume "stmt_of lo hi c" "c = ''v.SetType()\<newline>''"
  then obtain k r where "c = ''v'' @ itoa k @ r" and "c = ''v.SetType()\<newline>''"
    unfolding stmt_of_def by blast
  then have "itoa k @ r = ''.SetType()\<newline>''" by simp
  then have "hd (itoa k @ r) = CHR ''.''" by simp
  moreover have "is_digit (hd (itoa k @ r))"
    using itoa_digits [of k] itoa_nonempty [of k] by (cases "itoa k") auto
  ultimately show False by (simp add: is_digit_def)
qed

lemma stmt_of_not_SetType:
  assumes "stmt_of lo hi c" "n < lo"
  shows "c \<noteq> ''v'' @ itoa n @ ''.SetType()\<newline>''"
proof
  assume eq: "c = ''v'' @ itoa n @ ''.SetType()\<newline>''"
  from assms(1) obtain k r where k: "lo \<le> k" and c: "c = ''v'' @ itoa k @ r"
    and r: "r \<noteq> []" "\<not> is_digit (hd r)"
    unfolding stmt_of_def by blast
  from eq c have "itoa k @ r = itoa n @ ''.SetType()\<newline>''" by simp
  from itoa_prefix_unique [OF this r] have "k = n" by (simp add: is_digit_def)
  with k assms(2) show False by simp
qed

lemma genResultArg_needsType:
  "genResultArg a v nt alloc = Inr (out, nt', alloc') \<Longrightarrow> nt' = (nt \<and> hd a \<noteq> CHR ''<'')"
  by (subst (asm) genResultArg.simps) (auto split: if_splits sum.splits)

lemma genResultArgs_needsType:
  "genResultArgs as v nt alloc = Inr (out, nt', alloc') \<Longrightarrow>
    nt' = (nt \<and> list_all (\<lambda>a. hd a \<noteq> CHR ''<'') as)"
proof (induction as arbitrary: nt alloc out)
  case Nil
  then show ?case by simp
next
  case (Cons a as)
  from Cons.prems obtain o1 nt1 a1 o2 where
    a: "genResultArg a v nt alloc = Inr (o1, nt1, a1)" and
    r: "genResultArgs as v nt1 a1 = Inr (o2, nt', alloc')"
    by (auto split: sum.splits)
  from genResultArg_needsType [OF a] Cons.IH [OF r] show ?case by auto
qed

lemma genResultArg_type_assigned:
  "genResultArg a v nt alloc = Inr (out, nt', alloc') \<Longrightarrow> hd a = CHR ''<'' \<Longrightarrow>
    \<exists>t. out = [v @ ''.Type = '' @ t @ ''\<newline>'']"
  by (subst (asm) genResultArg.simps) (auto split: if_splits sum.splits)

lemma result_stmts:
  "(genResult0 result alloc toplevel = Inr (out, v, alloc') \<longrightarrow>
      alloc \<le> alloc' \<and> (\<not> toplevel \<longrightarrow> list_all (stmt_of alloc alloc') out))"
  "(genResultArg a w nt alloc = Inr (out1, nt1, alloc1) \<longrightarrow>
      alloc \<le> alloc1 \<and> list_all (\<lambda>c. own_stmt w c \<or> stmt_of alloc alloc1 c) out1)"
  "(genResultArgs as w nt alloc = Inr (out2, nt2, alloc2) \<longrightarrow>
      alloc \<le> alloc2 \<and> list_all (\<lambda>c. own_stmt w c \<or> stmt_of alloc alloc2 c) out2)"
proof (induction result alloc toplevel and a w nt alloc and as w nt alloc
    arbitrary: out v alloc' and out1 nt1 alloc1 and out2 nt2 alloc2
    rule: genResult0_genResultArg_genResultArgs.induct)
  case (1 result alloc toplevel)
  show ?case
  proof
    assume ok: "genResult0 result alloc toplevel = Inr (out, v, alloc')"
    show "alloc \<le> alloc' \<and> (\<not> toplevel \<longrightarrow> list_all (stmt_of alloc alloc') out)"
    proof (cases "hd result = CHR ''(''")
      case False
      with ok show ?thesis
        by (auto simp: genResult0.simps [of result] split: if_splits)
    next
      case True
      with ok obtain body s where
        ne: "result \<noteq> []" and b: "inner result = Inr body" and s: "split body = Inr s" and
        sne: "s \<noteq> []"
        by (auto simp: genResult0.simps [of result] split: if_splits sum.splits)
      show ?thesis
      proof (cases toplevel)
        case top: True
        with ok True ne b s sne obtain o2 nt2 where
          r: "genResultArgs (tl s) ''v'' False alloc = Inr (o2, nt2, alloc')"
          by (auto simp: genResult0.simps [of result] split: if_splits sum.splits)
        from "1.IH"(1) [OF ne _ b s sne top] True r top show ?thesis by simp
      next
        case nontop: False
        with ok True ne b s sne obtain o2 nt2 where
          r: "genResultArgs (tl s) (''v'' @ itoa alloc) True (alloc + 1) = Inr (o2, nt2, alloc')" and
          out: "out = [''v'' @ itoa alloc @ '' := v.Block.NewValue(Op'' @ hd s @ '', TypeInvalid, nil)\<newline>'']
              @ o2 @ (if nt2 then [''v'' @ itoa alloc @ ''.SetType()\<newline>''] else [])"
          by (auto simp: genResult0.simps [of result] split: if_splits sum.splits)
        from "1.IH"(2) [OF ne _ b s sne nontop] True r
        have le: "alloc + 1 \<le> alloc'"
          and body: "list_all (\<lambda>c. own_stmt (''v'' @ itoa alloc) c \<or> stmt_of (alloc + 1) alloc' c) o2"
          by simp_all
        from le have lt: "alloc < alloc'" by simp
        have "list_all (stmt_of alloc alloc') o2"
          using body own_stmt_stmt_of [OF _ le_refl lt] stmt_of_mono [of "alloc + 1" alloc' _ alloc alloc']
          by (auto simp: list_all_iff)
        moreover have "stmt_of alloc alloc'
            (''v'' @ itoa alloc @ '' := v.Block.NewValue(Op'' @ hd s @ '', TypeInvalid, nil)\<newline>'')"
          using lt by (intro stmt_ofI) (simp_all add: is_digit_def)
        moreover have "stmt_of alloc alloc' (''v'' @ itoa alloc @ ''.SetType()\<newline>'')"
          using lt by (intro stmt_ofI) (simp_all add: is_digit_def)
        ultimately show ?thesis using out le nontop by simp
      qed
    qed
  qed
next
  case (2 a w nt alloc)
  show ?case
  proof
    assume ok: "genResultArg a w nt alloc = Inr (out1, nt1, alloc1)"
    show "alloc \<le> alloc1 \<and> list_all (\<lambda>c. own_stmt w c \<or> stmt_of alloc alloc1 c) out1"
    proof (cases "hd a = CHR ''<'' \<or> hd a = CHR ''['' \<or> hd a = CHR ''{''")
      case True
      with ok show ?thesis
        by (auto simp: genResultArg.simps [of a] own_stmt_def split: if_splits sum.splits)
    next
      case False
      with ok obtain o2 x where ne: "a \<noteq> []"
        and r: "genResult0 a alloc False = Inr (o2, x, alloc1)"
        and out: "out1 = o2 @ [w @ ''.AddArg('' @ x @ '')\<newline>'']"
        by (auto simp: genResultArg.simps [of a] split: if_splits sum.splits)
      from "2.IH" [OF ne] False r have "alloc \<le> alloc1" "list_all (stmt_of alloc alloc1) o2"
        by simp_all
      moreover have "own_stmt w (w @ ''.AddArg('' @ x @ '')\<newline>'')"
        unfolding own_stmt_def by blast
      ultimately show ?thesis using out by (auto simp: list_all_iff)
    qed
  qed
next
  case (3 w nt alloc)
  then show ?case by simp
next
  case (4 a as w nt alloc)
  show ?case
  proof
    assume ok: "genResultArgs (a # as) w nt alloc = Inr (out2, nt2, alloc2)"
    then obtain o1 nta aa o2 where
      a: "genResultArg a w nt alloc = Inr (o1, nta, aa)" and
      r: "genResultArgs as w nta aa = Inr (o2, nt2, alloc2)" and
      out: "out2 = o1 @ o2"
      by (auto split: sum.splits)
    from "4.IH"(1) a have 1: "alloc \<le> aa" "list_all (\<lambda>c. own_stmt w c \<or> stmt_of alloc aa c) o1"
      by simp_all
    from "4.IH"(2) [OF a refl refl] r
    have 2: "aa \<le> alloc2" "list_all (\<lambda>c. own_stmt w c \<or> stmt_of aa alloc2 c) o2"
      by simp_all
    from 1 2 have "list_all (\<lambda>c. own_stmt w c \<or> stmt_of alloc alloc2 c) (o1 @ o2)"
      using stmt_of_mono [of alloc aa _ alloc alloc2] stmt_of_mono [of aa alloc2 _ alloc alloc2]
      by (auto simp: list_all_iff)
    with 1 2 out show "alloc \<le> alloc2 \<and> list_all (\<lambda>c. own_stmt w c \<or> stmt_of alloc alloc2 c) out2"
      by simp
  qed
qed

lemma genResultArgs_type_assigned:
  "genResultArgs as v nt alloc = Inr (out, nt', alloc') \<Longrightarrow> a \<in> set as \<Longrightarrow> hd a = CHR ''<'' \<Longrightarrow>
    \<exists>t. v @ ''.Type = '' @ t @ ''\<newline>'' \<in> set out"
proof (induction as arbitrary: nt alloc out)
  case Nil
  then show ?case by simp
next
  case (Cons b as)
  from Cons.prems(1) obtain o1 nt1 a1 o2 where
    b: "genResultArg b v nt alloc = Inr (o1, nt1, a1)" and
    r: "genResultArgs as v nt1 a1 = Inr (o2, nt', alloc')" and
    out: "out = o1 @ o2"
    by (auto split: sum.splits)
  show ?case
  proof (cases "a = b")
    case True
    with genResultArg_type_assigned [OF b] Cons.prems(3) out show ?thesis by auto
  next
    case False
    with Cons.prems(2) have "a \<in> set as" by simp
    from Cons.IH [OF r this Cons.prems(3)] out show ?thesis by auto
  qed
qed

text \<open>
  Claim C5.  A nested (non-top-level) op-node of a result expression allocates the fresh
  value \<^verbatim>\<open>v<alloc>\<close> with \<^verbatim>\<open>NewValue(Op<tag>, TypeInvalid, nil)\<close> first, then writes what its
  arguments compile to, and ends with \<^verbatim>\<open>v<alloc>.SetType()\<close> if and only if none of its
  argument tokens is a type constraint \<^verbatim>\<open><...>\<close>.  The statements of the arguments never
  contain \<^verbatim>\<open>v<alloc>.SetType()\<close>, so with a type constraint no derivation call is written
  for the node, and each type constraint assigns \<^verbatim>\<open>v<alloc>.Type\<close> directly.
\<close>

theorem nested_node_SetType_iff_no_type_constraint:
  assumes "genResult0 result alloc False = Inr (out, v, alloc')" and "hd result = CHR ''(''"
  shows "\<exists>tag args body.
     (\<exists>inside. inner result = Inr inside \<and> split inside = Inr (tag # args)) \<and>
     v = ''v'' @ itoa alloc \<and>
     genResultArgs args v True (alloc + 1) =
       Inr (body, list_all (\<lambda>a. hd a \<noteq> CHR ''<'') args, alloc') \<and>
     out = [v @ '' := v.Block.NewValue(Op'' @ tag @ '', TypeInvalid, nil)\<newline>''] @ body @
           (if list_all (\<lambda>a. hd a \<noteq> CHR ''<'') args then [v @ ''.SetType()\<newline>''] else []) \<and>
     v @ ''.SetType()\<newline>'' \<notin> set body \<and>
     (\<forall>a\<in>set args. hd a = CHR ''<'' \<longrightarrow> (\<exists>t. v @ ''.Type = '' @ t @ ''\<newline>'' \<in> set body))"
proof -
  from assms obtain inside s body nt where
    inside: "inner result = Inr inside" and toks: "split inside = Inr s" and sne: "s \<noteq> []" and
    r: "genResultArgs (tl s) (''v'' @ itoa alloc) True (alloc + 1) = Inr (body, nt, alloc')" and
    out: "out = [''v'' @ itoa alloc @ '' := v.Block.NewValue(Op'' @ hd s @ '', TypeInvalid, nil)\<newline>'']
        @ body @ (if nt then [''v'' @ itoa alloc @ ''.SetType()\<newline>''] else [])" and
    v: "v = ''v'' @ itoa alloc"
    by (auto simp: genResult0.simps [of result] split: if_splits sum.splits)
  from sne obtain tag args where s: "s = tag # args" by (cases s) auto
  from genResultArgs_needsType [OF r] s have nt: "nt = list_all (\<lambda>a. hd a \<noteq> CHR ''<'') args"
    by simp
  from result_stmts(3) [of "tl s" "''v'' @ itoa alloc" True "alloc + 1" body nt alloc'] r
  have "list_all (\<lambda>c. own_stmt (''v'' @ itoa alloc) c \<or> stmt_of (alloc + 1) alloc' c) body"
    by simp
  then have noset: "(''v'' @ itoa alloc) @ ''.SetType()\<newline>'' \<notin> set body"
    using own_stmt_not_SetType [of "''v'' @ itoa alloc"] stmt_of_not_SetType [of "alloc + 1" alloc' _ alloc]
    by (auto simp: list_all_iff)
  have ty: "\<forall>a\<in>set args. hd a = CHR ''<'' \<longrightarrow> (\<exists>t. v @ ''.Type = '' @ t @ ''\<newline>'' \<in> set body)"
    using genResultArgs_type_assigned [OF r] s v by auto
  from inside toks s have "\<exists>inside. inner result = Inr inside \<and> split inside = Inr (tag # args)"
    by blast
  moreover from r s v nt have "genResultArgs args v True (alloc + 1) =
       Inr (body, list_all (\<lambda>a. hd a \<noteq> CHR ''<'') args, alloc')"
    by simp
  moreover from out s v nt
  have "out = [v @ '' := v.Block.NewValue(Op'' @ tag @ '', TypeInvalid, nil)\<newline>''] @ body @
           (if list_all (\<lambda>a. hd a \<noteq> CHR ''<'') args then [v @ ''.SetType()\<newline>''] else [])"
    by simp
  moreover from noset v have "v @ ''.SetType()\<newline>'' \<notin> set body" by simp
  ultimately show ?thesis using v ty by blast
qed

text \<open>Witness for C5: \<^verbatim>\<open>(Neg y)\<close> and \<^verbatim>\<open>(Neg <t> y)\<close> as nested nodes.\<close>

theorem nested_node_SetType_iff_no_type_constraint_witness:
  "genResult0 ''(Neg y)'' 0 False =
     Inr ([''v0 := v.Block.NewValue(OpNeg, TypeInvalid, nil)\<newline>'', ''v0.AddArg(y)\<newline>'',
           ''v0.SetType()\<newline>''], ''v0'', 1) \<and>
   genResult0 ''(Neg <t> y)'' 0 False =
     Inr ([''v0 := v.Block.NewValue(OpNeg, TypeInvalid, nil)\<newline>'', ''v0.Type = t\<newline>'',
           ''v0.AddArg(y)\<newline>''], ''v0'', 1) \<and>
   (\<exists>tag args inside. inner ''(Neg <t> y)'' = Inr inside \<and> split inside = Inr (tag # args))"
proof -
  have run1: "genResult0 ''(Neg y)'' 0 False =
     Inr ([''v0 := v.Block.NewValue(OpNeg, TypeInvalid, nil)\<newline>'', ''v0.AddArg(y)\<newline>'',
           ''v0.SetType()\<newline>''], ''v0'', 1)"
    by code_simp
  have run2: "genResult0 ''(Neg <t> y)'' 0 False =
     Inr ([''v0 := v.Block.NewValue(OpNeg, TypeInvalid, nil)\<newline>'', ''v0.Type = t\<newline>'',
           ''v0.AddArg(y)\<newline>''], ''v0'', 1)"
    by code_simp
  from nested_node_SetType_iff_no_type_constraint [OF run2] have "\<exists>tag args inside. inner ''(Neg <t> y)'' = Inr inside \<and> split inside = Inr (tag # args)"
    by auto
  with run1 run2 show ?thesis by blast
qed

text \<open>
  What the specification says that the result compiler writes for the child slots of a
  node, as two relations.  \<open>child_built a k stmts x k'\<close>: the child expression \<open>a\<close>,
  compiled with the allocation counter at \<open>k\<close>, is built by the statements \<open>stmts\<close>, is
  referred to by \<open>x\<close>, and leaves the counter at \<open>k'\<close>.  A variable is built by no
  statement and is its own reference.  A node allocates \<^verbatim>\<open>v<k>\<close> with
  \<^verbatim>\<open>NewValue(Op<tag>, TypeInvalid, nil)\<close>, has its child slots processed, calls
  \<^verbatim>\<open>SetType()\<close> if none of them is a type constraint, and is referred to by \<^verbatim>\<open>v<k>\<close>.
  \<open>children_appended v args k stmts k'\<close>: \<open>stmts\<close> processes the slots \<open>args\<close> of the node
  \<open>v\<close> in their order.  A type constraint \<^verbatim>\<open><t>\<close> or \<^verbatim>\<open><{code}>\<close> assigns \<^verbatim>\<open>v.Type\<close>, an aux
  constraint \<^verbatim>\<open>[x]\<close> or \<^verbatim>\<open>[{code}]\<close> assigns \<^verbatim>\<open>v.Aux\<close>; \<^verbatim>\<open>{code}\<close> appends the code as a child
  with \<^verbatim>\<open>v.AddArg(code)\<close>; any other slot is a child expression, which is built first and
  whose reference is then appended with \<^verbatim>\<open>v.AddArg\<close>.
\<close>

inductive child_built :: "string \<Rightarrow> nat \<Rightarrow> string list \<Rightarrow> string \<Rightarrow> nat \<Rightarrow> bool"
  and children_appended :: "string \<Rightarrow> string list \<Rightarrow> nat \<Rightarrow> string list \<Rightarrow> nat \<Rightarrow> bool"
where
  variable:
    "a \<noteq> [] \<Longrightarrow> hd a \<noteq> CHR ''('' \<Longrightarrow> child_built a k [] a k"
| node:
    "hd a = CHR ''('' \<Longrightarrow> inner a = Inr inside \<Longrightarrow> split inside = Inr (tag # args) \<Longrightarrow>
     children_appended (''v'' @ itoa k) args (k + 1) body k' \<Longrightarrow>
     child_built a k
       ((''v'' @ itoa k @ '' := v.Block.NewValue(Op'' @ tag @ '', TypeInvalid, nil)\<newline>'') # body @
        (if list_all (\<lambda>a. hd a \<noteq> CHR ''<'') args then [''v'' @ itoa k @ ''.SetType()\<newline>''] else []))
       (''v'' @ itoa k) k'"
| no_more:
    "children_appended v [] k [] k"
| type_name:
    "hd a = CHR ''<'' \<Longrightarrow> inner a = Inr t \<Longrightarrow> t \<noteq> [] \<Longrightarrow> hd t \<noteq> CHR ''{'' \<Longrightarrow>
     children_appended v as k body k' \<Longrightarrow>
     children_appended v (a # as) k ((v @ ''.Type = '' @ t @ ''\<newline>'') # body) k'"
| type_code:
    "hd a = CHR ''<'' \<Longrightarrow> inner a = Inr t \<Longrightarrow> hd t = CHR ''{'' \<Longrightarrow> inner t = Inr code \<Longrightarrow>
     children_appended v as k body k' \<Longrightarrow>
     children_appended v (a # as) k ((v @ ''.Type = '' @ code @ ''\<newline>'') # body) k'"
| aux_name:
    "hd a = CHR ''['' \<Longrightarrow> inner a = Inr x \<Longrightarrow> x \<noteq> [] \<Longrightarrow> hd x \<noteq> CHR ''{'' \<Longrightarrow>
     children_appended v as k body k' \<Longrightarrow>
     children_appended v (a # as) k ((v @ ''.Aux = '' @ x @ ''\<newline>'') # body) k'"
| aux_code:
    "hd a = CHR ''['' \<Longrightarrow> inner a = Inr x \<Longrightarrow> hd x = CHR ''{'' \<Longrightarrow> inner x = Inr code \<Longrightarrow>
     children_appended v as k body k' \<Longrightarrow>
     children_appended v (a # as) k ((v @ ''.Aux = '' @ code @ ''\<newline>'') # body) k'"
| code_child:
    "hd a = CHR ''{'' \<Longrightarrow> inner a = Inr code \<Longrightarrow>
     children_appended v as k body k' \<Longrightarrow>
     children_appended v (a # as) k ((v @ ''.AddArg('' @ code @ '')\<newline>'') # body) k'"
| built_child:
    "a \<noteq> [] \<Longrightarrow> hd a \<noteq> CHR ''<'' \<Longrightarrow> hd a \<noteq> CHR ''['' \<Longrightarrow> hd a \<noteq> CHR ''{'' \<Longrightarrow>
     child_built a k stmts x k1 \<Longrightarrow>
     children_appended v as k1 body k' \<Longrightarrow>
     children_appended v (a # as) k (stmts @ (v @ ''.AddArg('' @ x @ '')\<newline>'') # body) k'"

lemma result_refines:
  "(genResult0 result alloc toplevel = Inr (out, x, alloc') \<longrightarrow> \<not> toplevel \<longrightarrow>
      child_built result alloc out x alloc')"
  "(genResultArg a v nt alloc = Inr (out1, nt1, alloc1) \<longrightarrow>
      (\<forall>as body k'. children_appended v as alloc1 body k' \<longrightarrow>
         children_appended v (a # as) alloc (out1 @ body) k'))"
  "(genResultArgs as v nt alloc = Inr (out2, nt2, alloc2) \<longrightarrow>
      children_appended v as alloc out2 alloc2)"
proof (induction result alloc toplevel and a v nt alloc and as v nt alloc
    arbitrary: out x alloc' and out1 nt1 alloc1 and out2 nt2 alloc2
    rule: genResult0_genResultArg_genResultArgs.induct)
  case (1 result alloc toplevel)
  show ?case
  proof (intro impI)
    assume run: "genResult0 result alloc toplevel = Inr (out, x, alloc')" and nt: "\<not> toplevel"
    show "child_built result alloc out x alloc'"
    proof (cases "hd result = CHR ''(''")
      case False
      with run have "result \<noteq> []" "out = []" "x = result" "alloc' = alloc"
        by (auto simp: genResult0.simps [of result] split: if_splits)
      with False show ?thesis by (simp add: child_built_children_appended.variable)
    next
      case True
      with run nt obtain inside s body needs where
        ne: "result \<noteq> []" and
        inside: "inner result = Inr inside" and toks: "split inside = Inr s" and sne: "s \<noteq> []" and
        r: "genResultArgs (tl s) (''v'' @ itoa alloc) True (alloc + 1) = Inr (body, needs, alloc')" and
        out: "out = [''v'' @ itoa alloc @ '' := v.Block.NewValue(Op'' @ hd s @ '', TypeInvalid, nil)\<newline>'']
          @ body @ (if needs then [''v'' @ itoa alloc @ ''.SetType()\<newline>''] else [])" and
        x: "x = ''v'' @ itoa alloc"
        by (auto simp: genResult0.simps [of result] split: if_splits sum.splits)
      from sne obtain tag args where s: "s = tag # args" by (cases s) auto
      from genResultArgs_needsType [OF r] s
      have needs: "needs = list_all (\<lambda>a. hd a \<noteq> CHR ''<'') args" by simp
      from "1.IH"(2) [OF ne _ inside toks sne nt] True r s
      have "children_appended (''v'' @ itoa alloc) args (alloc + 1) body alloc'" by simp
      from child_built_children_appended.node [OF True inside _ this, of tag] toks s
      show ?thesis unfolding out x needs s by simp
    qed
  qed
next
  case (2 a v nt alloc)
  show ?case
  proof (intro impI allI)
    fix as body k'
    assume run: "genResultArg a v nt alloc = Inr (out1, nt1, alloc1)"
      and rest: "children_appended v as alloc1 body k'"
    from run have ne: "a \<noteq> []" by (auto simp: genResultArg.simps [of a] split: if_splits)
    consider (ty) "hd a = CHR ''<''" | (aux) "hd a \<noteq> CHR ''<''" "hd a = CHR ''[''"
      | (code) "hd a \<noteq> CHR ''<''" "hd a \<noteq> CHR ''[''" "hd a = CHR ''{''"
      | (child) "hd a \<noteq> CHR ''<''" "hd a \<noteq> CHR ''[''" "hd a \<noteq> CHR ''{''"
      by blast
    then show "children_appended v (a # as) alloc (out1 @ body) k'"
    proof cases
      case ty
      with run ne obtain t where t: "inner a = Inr t" "t \<noteq> []"
        by (auto simp: genResultArg.simps [of a] split: if_splits sum.splits)
      show ?thesis
      proof (cases "hd t = CHR ''{''")
        case True
        with run ne ty t obtain code where "inner t = Inr code"
          "out1 = [v @ ''.Type = '' @ code @ ''\<newline>'']" "alloc1 = alloc"
          by (auto simp: genResultArg.simps [of a] split: if_splits sum.splits)
        with child_built_children_appended.type_code [OF ty t(1) True, of code v as alloc body k'] rest
        show ?thesis by simp
      next
        case False
        with run ne ty t have "out1 = [v @ ''.Type = '' @ t @ ''\<newline>'']" "alloc1 = alloc"
          by (auto simp: genResultArg.simps [of a] split: if_splits sum.splits)
        with child_built_children_appended.type_name [OF ty t False, of v as alloc body k'] rest
        show ?thesis by simp
      qed
    next
      case aux
      with run ne obtain t where t: "inner a = Inr t" "t \<noteq> []"
        by (auto simp: genResultArg.simps [of a] split: if_splits sum.splits)
      show ?thesis
      proof (cases "hd t = CHR ''{''")
        case True
        with run ne aux t obtain code where "inner t = Inr code"
          "out1 = [v @ ''.Aux = '' @ code @ ''\<newline>'']" "alloc1 = alloc"
          by (auto simp: genResultArg.simps [of a] split: if_splits sum.splits)
        with child_built_children_appended.aux_code [OF aux(2) t(1) True, of code v as alloc body k'] rest
        show ?thesis by simp
      next
        case False
        with run ne aux t have "out1 = [v @ ''.Aux = '' @ t @ ''\<newline>'']" "alloc1 = alloc"
          by (auto simp: genResultArg.simps [of a] split: if_splits sum.splits)
        with child_built_children_appended.aux_name [OF aux(2) t False, of v as alloc body k'] rest
        show ?thesis by simp
      qed
    next
      case code
      with run ne obtain c where "inner a = Inr c"
        "out1 = [v @ ''.AddArg('' @ c @ '')\<newline>'']" "alloc1 = alloc"
        by (auto simp: genResultArg.simps [of a] split: if_splits sum.splits)
      with child_built_children_appended.code_child [OF code(3), of c v as alloc body k'] rest
      show ?thesis by simp
    next
      case child
      with run ne obtain stmts x where
        r: "genResult0 a alloc False = Inr (stmts, x, alloc1)" and
        out1: "out1 = stmts @ [v @ ''.AddArg('' @ x @ '')\<newline>'']"
        by (auto simp: genResultArg.simps [of a] split: if_splits sum.splits)
      from "2.IH" [OF ne child] r have "child_built a alloc stmts x alloc1" by simp
      from child_built_children_appended.built_child [OF ne child this rest]
      show ?thesis unfolding out1 by simp
    qed
  qed
next
  case (3 v nt alloc)
  then show ?case by (auto intro: child_built_children_appended.no_more)
next
  case (4 a as v nt alloc)
  show ?case
  proof (intro impI)
    assume "genResultArgs (a # as) v nt alloc = Inr (out2, nt2, alloc2)"
    then obtain o1 nt1 a1 o2 where
      a: "genResultArg a v nt alloc = Inr (o1, nt1, a1)" and
      r: "genResultArgs as v nt1 a1 = Inr (o2, nt2, alloc2)" and
      out: "out2 = o1 @ o2"
      by (auto split: sum.splits)
    from "4.IH"(2) [OF a refl refl] r have "children_appended v as a1 o2 alloc2" by simp
    with "4.IH"(1) a show "children_appended v (a # as) alloc out2 alloc2"
      unfolding out by blast
  qed
qed

text \<open>
  Claim C6.  For a top-level op-node the result compiler reuses \<^verbatim>\<open>v\<close>: it writes
  \<^verbatim>\<open>v.Op = Op<tag>\<close>, \<^verbatim>\<open>v.Aux = nil\<close> and \<^verbatim>\<open>v.Args = v.argstorage[:0]\<close>, in this order, and
  then the statements that process the child slots of \<^verbatim>\<open>v\<close> in their order as
  \<open>children_appended\<close> describes, each built reference appended with \<^verbatim>\<open>v.AddArg\<close>, and
  nothing after them; these statements are what the argument loop returns for \<^verbatim>\<open>v\<close>, with
  \<^verbatim>\<open>needsType\<close> false at its start and its end.  \<^verbatim>\<open>v.SetType()\<close> is not among the statements
  written, so the type of \<^verbatim>\<open>v\<close> changes only through a type constraint's \<^verbatim>\<open>v.Type = ...\<close>.
\<close>

theorem toplevel_node_mutated_without_SetType:
  assumes "genResult0 result alloc True = Inr (out, v, alloc')" and "hd result = CHR ''(''"
  shows "\<exists>tag args body.
     (\<exists>inside. inner result = Inr inside \<and> split inside = Inr (tag # args)) \<and>
     v = ''v'' \<and>
     genResultArgs args ''v'' False alloc = Inr (body, False, alloc') \<and>
     children_appended ''v'' args alloc body alloc' \<and>
     out = [''v.Op = Op'' @ tag @ ''\<newline>'', ''v.Aux = nil\<newline>'',
            ''v.Args = v.argstorage[:0]\<newline>''] @ body \<and>
     ''v.SetType()\<newline>'' \<notin> set out"
proof -
  from assms obtain inside s body nt where
    inside: "inner result = Inr inside" and toks: "split inside = Inr s" and sne: "s \<noteq> []" and
    r: "genResultArgs (tl s) ''v'' False alloc = Inr (body, nt, alloc')" and
    out: "out = [''v.Op = Op'' @ hd s @ ''\<newline>'', ''v.Aux = nil\<newline>'',
                 ''v.Args = v.argstorage[:0]\<newline>''] @ body @
                (if nt then [''v.SetType()\<newline>''] else [])" and
    v: "v = ''v''"
    by (auto simp: genResult0.simps [of result] split: if_splits sum.splits)
  from sne obtain tag args where s: "s = tag # args" by (cases s) auto
  from genResultArgs_needsType [OF r] have nt: "nt = False" by simp
  from result_stmts(3) [of "tl s" "''v''" False alloc body nt alloc'] r
  have "list_all (\<lambda>c. own_stmt ''v'' c \<or> stmt_of alloc alloc' c) body"
    by simp
  then have "''v.SetType()\<newline>'' \<notin> set body"
    using own_stmt_not_SetType [of "''v''"] stmt_of_not_top_SetType [of alloc alloc']
    by (auto simp: list_all_iff)
  with out nt have "''v.SetType()\<newline>'' \<notin> set out" by simp
  moreover from inside toks s
  have "\<exists>inside. inner result = Inr inside \<and> split inside = Inr (tag # args)"
    by blast
  moreover from r s nt have run: "genResultArgs args ''v'' False alloc = Inr (body, False, alloc')"
    by simp
  moreover from result_refines(3) [of args "''v''" False alloc body False alloc'] run
  have "children_appended ''v'' args alloc body alloc'" by simp
  moreover from out s nt
  have "out = [''v.Op = Op'' @ tag @ ''\<newline>'', ''v.Aux = nil\<newline>'',
            ''v.Args = v.argstorage[:0]\<newline>''] @ body"
    by simp
  ultimately show ?thesis using v by blast
qed

text \<open>
  Witness for C6: the result \<^verbatim>\<open>(Add <t> [c] x {k} (Neg y))\<close>, with a slot of each kind.
\<close>

theorem toplevel_node_mutated_without_SetType_witness:
  "genResult0 ''(Add <t> [c] x {k} (Neg y))'' 0 True =
     Inr ([''v.Op = OpAdd\<newline>'', ''v.Aux = nil\<newline>'', ''v.Args = v.argstorage[:0]\<newline>'',
           ''v.Type = t\<newline>'', ''v.Aux = c\<newline>'', ''v.AddArg(x)\<newline>'', ''v.AddArg(k)\<newline>'',
           ''v0 := v.Block.NewValue(OpNeg, TypeInvalid, nil)\<newline>'',
           ''v0.AddArg(y)\<newline>'', ''v0.SetType()\<newline>'', ''v.AddArg(v0)\<newline>''], ''v'', 1) \<and>
   children_appended ''v'' [''<t>'', ''[c]'', ''x'', ''{k}'', ''(Neg y)''] 0
     [''v.Type = t\<newline>'', ''v.Aux = c\<newline>'', ''v.AddArg(x)\<newline>'', ''v.AddArg(k)\<newline>'',
      ''v0 := v.Block.NewValue(OpNeg, TypeInvalid, nil)\<newline>'',
      ''v0.AddArg(y)\<newline>'', ''v0.SetType()\<newline>'', ''v.AddArg(v0)\<newline>''] 1"
proof -
  have run: "genResult0 ''(Add <t> [c] x {k} (Neg y))'' 0 True =
     Inr ([''v.Op = OpAdd\<newline>'', ''v.Aux = nil\<newline>'', ''v.Args = v.argstorage[:0]\<newline>'',
           ''v.Type = t\<newline>'', ''v.Aux = c\<newline>'', ''v.AddArg(x)\<newline>'', ''v.AddArg(k)\<newline>'',
           ''v0 := v.Block.NewValue(OpNeg, TypeInvalid, nil)\<newline>'',
           ''v0.AddArg(y)\<newline>'', ''v0.SetType()\<newline>'', ''v.AddArg(v0)\<newline>''], ''v'', 1)"
    by code_simp
  have i: "inner ''(Add <t> [c] x {k} (Neg y))'' = Inr ''Add <t> [c] x {k} (Neg y)''"
    by code_simp
  have s: "split ''Add <t> [c] x {k} (Neg y)'' = Inr [''Add'', ''<t>'', ''[c]'', ''x'', ''{k}'', ''(Neg y)'']"
    by code_simp
  from toplevel_node_mutated_without_SetType [OF run] obtain tag args body where
    "\<exists>inside. inner ''(Add <t> [c] x {k} (Neg y))'' = Inr inside \<and> split inside = Inr (tag # args)"
    "children_appended ''v'' args 0 body 1"
    "[''v.Op = OpAdd\<newline>'', ''v.Aux = nil\<newline>'', ''v.Args = v.argstorage[:0]\<newline>'',
           ''v.Type = t\<newline>'', ''v.Aux = c\<newline>'', ''v.AddArg(x)\<newline>'', ''v.AddArg(k)\<newline>'',
           ''v0 := v.Block.NewValue(OpNeg, TypeInvalid, nil)\<newline>'',
           ''v0.AddArg(y)\<newline>'', ''v0.SetType()\<newline>'', ''v.AddArg(v0)\<newline>''] =
      [''v.Op = Op'' @ tag @ ''\<newline>'', ''v.Aux = nil\<newline>'',
            ''v.Args = v.argstorage[:0]\<newline>''] @ body"
    by auto
  with i s have "children_appended ''v'' [''<t>'', ''[c]'', ''x'', ''{k}'', ''(Neg y)''] 0
     [''v.Type = t\<newline>'', ''v.Aux = c\<newline>'', ''v.AddArg(x)\<newline>'', ''v.AddArg(k)\<newline>'',
      ''v0 := v.Block.NewValue(OpNeg, TypeInvalid, nil)\<newline>'',
      ''v0.AddArg(y)\<newline>'', ''v0.SetType()\<newline>'', ''v.AddArg(v0)\<newline>''] 1"
    by auto
  with run show ?thesis by blast
qed

subsection \<open>The main loop\<close>

text \<open>
  The map \<^verbatim>\<open>oprules map[string][]string\<close> is an association list with one entry for each
  key, in the order in which the keys were first stored; \<open>append_rule\<close> is
  \<^verbatim>\<open>oprules[op] = append(oprules[op], line)\<close> and \<open>lookup\<close> is \<^verbatim>\<open>oprules[op]\<close>, the empty slice
  for a key that is not there.  Go ranges over a map in an unspecified order; the program
  sorts the keys before it uses them, so the order of the association list does not
  reach the output.
\<close>

type_synonym oprules = "(string \<times> string list) list"

fun append_rule :: "oprules \<Rightarrow> string \<Rightarrow> string \<Rightarrow> oprules" where
  "append_rule [] op line = [(op, [line])]"
| "append_rule ((k, rs) # rest) op line =
    (if k = op then (k, rs @ [line]) # rest else (k, rs) # append_rule rest op line)"

definition lookup :: "oprules \<Rightarrow> string \<Rightarrow> string list" where
  "lookup oprules op = (case map_of oprules op of None \<Rightarrow> [] | Some rs \<Rightarrow> rs)"

text \<open>
  The body of the reading loop (lines 67 to 78): \<open>strip_line\<close> cuts a line at the first
  \<^verbatim>\<open>//\<close> and trims it, \<open>rule_op\<close> is \<^verbatim>\<open>strings.Split(line, " ")[0][1:]\<close>.  The input is the
  list of lines that \<^verbatim>\<open>bufio.Scanner\<close> delivers; opening and scanning the file are not
  modelled.
\<close>

definition strip_line :: "string \<Rightarrow> string" where
  "strip_line line =
    TrimSpace (case Index line ''//'' of Some i \<Rightarrow> take i line | None \<Rightarrow> line)"

definition rule_op :: "string \<Rightarrow> error + string" where
  "rule_op line =
    (let tok = hd (Split line '' '')
     in if tok = [] then Inl SliceOutOfRange else Inr (drop 1 tok))"

fun read_rules :: "string list \<Rightarrow> oprules \<Rightarrow> error + oprules" where
  "read_rules [] oprules = Inr oprules"
| "read_rules (l # ls) oprules =
    (let line = strip_line l
     in if line = [] then read_rules ls oprules
        else (case rule_op line of
                Inl e \<Rightarrow> Inl e
              | Inr op \<Rightarrow> read_rules ls (append_rule oprules op line)))"

text \<open>
  The body of the loop over the rules of one opcode (lines 102 to 136).  \<open>gen_rule\<close> splits
  the rule at the arrow; \<open>gen_sides\<close> is the rest of the body, from the trimmed left and
  right segment on.  \<open>fail_block\<close> is the string \<^verbatim>\<open>fail\<close>.
\<close>

definition fail_block :: "nat \<Rightarrow> string" where
  "fail_block rulenum = ''{\<newline>goto end'' @ itoa rulenum @ ''\<newline>}\<newline>''"

definition gen_sides :: "nat \<Rightarrow> string \<Rightarrow> string \<Rightarrow> error + string list" where
  "gen_sides rulenum lhs result =
    (let (match, cond) =
           (case Index lhs ''&&'' of
              Some i \<Rightarrow> (Trim (take i lhs) [CHR '' '', CHR 0x09],
                         Trim (drop (i + 2) lhs) [CHR '' '', CHR 0x09])
            | None \<Rightarrow> (lhs, []));
         fail = fail_block rulenum
     in case genMatch match fail of
          Inl e \<Rightarrow> Inl e
        | Inr mout \<Rightarrow>
            (case genResult result of
               Inl e \<Rightarrow> Inl e
             | Inr rout \<Rightarrow>
                 Inr ([''// match: '' @ match @ ''\<newline>'',
                       ''// cond: '' @ cond @ ''\<newline>'',
                       ''// result: '' @ result @ ''\<newline>'',
                       ''{\<newline>''] @
                      mout @
                      (if cond \<noteq> [] then [''if !('' @ cond @ '') '' @ fail] else []) @
                      rout @
                      [''return true\<newline>'', ''}\<newline>'',
                       ''end'' @ itoa rulenum @ '':;\<newline>''])))"

definition gen_rule :: "nat \<Rightarrow> string \<Rightarrow> error + string list" where
  "gen_rule rulenum rule =
    (let s = Split rule ''->''
     in if length s \<noteq> 2 then Inl (NoArrow rule)
        else gen_sides rulenum (Trim (s ! 0) [CHR '' '', CHR 0x09])
                                (Trim (s ! 1) [CHR '' '', CHR 0x09, CHR 0x0A]))"

text \<open>
  The loop over the rules of one opcode, \<open>gen_group\<close>, and the loop over the sorted opcodes,
  \<open>gen_cases\<close>; \<^verbatim>\<open>rulenum\<close> is passed through both.  \<open>gen_switch\<close> is the program from the
  reading of the rules to the closing brace of the function, and \<open>generate\<close> puts the
  header in front of it: the text handed to \<^verbatim>\<open>format.Source\<close>, which is not modelled, as
  the writing of the result is not.
\<close>

fun gen_group :: "string list \<Rightarrow> nat \<Rightarrow> error + (string list \<times> nat)" where
  "gen_group [] rulenum = Inr ([], rulenum)"
| "gen_group (rule # rules) rulenum =
    (case gen_rule rulenum rule of
       Inl e \<Rightarrow> Inl e
     | Inr out \<Rightarrow>
         (case gen_group rules (rulenum + 1) of
            Inl e \<Rightarrow> Inl e
          | Inr (out', rulenum') \<Rightarrow> Inr (out @ out', rulenum')))"

fun gen_cases ::
  "string list \<Rightarrow> (string \<Rightarrow> string list) \<Rightarrow> nat \<Rightarrow> error + (string list \<times> nat)" where
  "gen_cases [] oprules rulenum = Inr ([], rulenum)"
| "gen_cases (op # ops) oprules rulenum =
    (case gen_group (oprules op) rulenum of
       Inl e \<Rightarrow> Inl e
     | Inr (out, rulenum') \<Rightarrow>
         (case gen_cases ops oprules rulenum' of
            Inl e \<Rightarrow> Inl e
          | Inr (out', rulenum'') \<Rightarrow>
              Inr ((''case Op'' @ op @ '':\<newline>'') # out @ out', rulenum'')))"

definition gen_switch :: "string list \<Rightarrow> error + string list" where
  "gen_switch lines =
    (case read_rules lines [] of
       Inl e \<Rightarrow> Inl e
     | Inr oprules \<Rightarrow>
         (case gen_cases (sort (map fst oprules)) (lookup oprules) 0 of
            Inl e \<Rightarrow> Inl e
          | Inr (out, rulenum) \<Rightarrow>
              Inr ([''switch v.Op {\<newline>''] @ out @
                   [''}\<newline>'', ''return false\<newline>'', ''}\<newline>''])))"

definition Join :: "string list \<Rightarrow> string \<Rightarrow> string" where
  "Join elems sep = concat (case elems of [] \<Rightarrow> [] | e # es \<Rightarrow> e # map (\<lambda>x. sep @ x) es)"

definition generate ::
  "string \<Rightarrow> string list \<Rightarrow> string \<Rightarrow> string list \<Rightarrow> error + string list" where
  "generate rulefile args rulefn lines =
    (case gen_switch lines of
       Inl e \<Rightarrow> Inl e
     | Inr out \<Rightarrow>
         Inr ([''// autogenerated from '' @ rulefile @ '': do not edit!\<newline>'',
               ''// generated with: go run rulegen/rulegen.go '' @ Join args '' '' @ ''\<newline>'',
               ''package ssa\<newline>'',
               ''func '' @ rulefn @ ''(v *Value) bool {\<newline>''] @ out))"

subsection \<open>Splitting a rule at the arrow\<close>

text \<open>The number of positions of \<open>s\<close> at which \<open>sep\<close> occurs.\<close>

fun occurrences :: "string \<Rightarrow> string \<Rightarrow> nat" where
  "occurrences sep [] = 0"
| "occurrences sep (c # cs) = (if prefix sep (c # cs) then 1 else 0) + occurrences sep cs"

lemma Index_None_occurrences: "Index s sep = None \<Longrightarrow> occurrences sep s = 0"
  by (induction s) (auto split: if_splits)

lemma Index_Some_occurrences:
  "Index s sep = Some i \<Longrightarrow>
    prefix sep (drop i s) \<and> occurrences sep s = occurrences sep (drop i s)"
proof (induction s arbitrary: i)
  case Nil
  then show ?case by (simp split: if_splits)
next
  case (Cons c cs)
  show ?case
  proof (cases "prefix sep (c # cs)")
    case True
    with Cons.prems show ?thesis by simp
  next
    case False
    with Cons.prems obtain j where j: "Index cs sep = Some j" "i = Suc j" by auto
    from Cons.IH [OF j(1)] False j(2) show ?thesis by simp
  qed
qed

lemma arrow_occurrence_step:
  assumes "prefix ''->'' t"
  shows "occurrences ''->'' t = Suc (occurrences ''->'' (drop 2 t))" and "t = ''->'' @ drop 2 t"
proof -
  from assms obtain r where t: "t = CHR ''-'' # CHR ''>'' # r" by (auto simp: prefix_def)
  then show "occurrences ''->'' t = Suc (occurrences ''->'' (drop 2 t))" by simp
  from t show "t = ''->'' @ drop 2 t" by simp
qed

lemma Split_arrow_length:
  "sep = ''->'' \<Longrightarrow> length (Split s sep) = Suc (occurrences sep s)"
proof (induction s sep rule: Split.induct)
  case (1 s sep)
  show ?case
  proof (cases "Index s sep")
    case None
    with "1.prems" show ?thesis
      by (simp add: Split.simps [of s] Index_None_occurrences)
  next
    case (Some i)
    from Index_Some_occurrences [OF Some] "1.prems"
    have p: "prefix ''->'' (drop i s)" and o: "occurrences sep s = occurrences sep (drop i s)"
      by simp_all
    from arrow_occurrence_step(1) [OF p] "1.prems"
    have "occurrences sep (drop i s) = Suc (occurrences sep (drop (i + length sep) s))"
      by (simp add: add.commute)
    with "1.IH" [OF _ Some] "1.prems" Some o show ?thesis
      by (simp add: Split.simps [of s])
  qed
qed

lemma no_arrow_Index:
  assumes "occurrences ''->'' s = 0"
  shows "Index s ''->'' = None"
proof (cases "Index s ''->''")
  case (Some j)
  from Index_Some_occurrences [OF Some] arrow_occurrence_step(1) [of "drop j s"] assms
  show ?thesis by simp
qed simp

lemma Split_no_arrow: "occurrences ''->'' s = 0 \<Longrightarrow> Split s ''->'' = [s]"
  by (subst Split.simps) (simp add: no_arrow_Index)

lemma Split_arrow_single:
  assumes "occurrences ''->'' rule = 1"
  shows "\<exists>l r. rule = l @ ''->'' @ r \<and> Split rule ''->'' = [l, r]"
proof (cases "Index rule ''->''")
  case None
  with assms show ?thesis by (simp add: Index_None_occurrences)
next
  case (Some i)
  define r where "r = drop (i + length ''->'') rule"
  from Index_Some_occurrences [OF Some]
  have p: "prefix ''->'' (drop i rule)"
    and o: "occurrences ''->'' rule = occurrences ''->'' (drop i rule)"
    by simp_all
  from arrow_occurrence_step [OF p] have
    "occurrences ''->'' (drop i rule) = Suc (occurrences ''->'' r)" and
    d: "drop i rule = ''->'' @ r"
    by (simp_all add: add.commute r_def)
  with o assms have "occurrences ''->'' r = 0" by simp
  then have "Split r ''->'' = [r]" by (rule Split_no_arrow)
  with Some have "Split rule ''->'' = [take i rule, r]"
    by (subst Split.simps) (simp add: r_def)
  moreover have "rule = take i rule @ ''->'' @ r"
    using d append_take_drop_id [of i rule] by metis
  ultimately show ?thesis by blast
qed

lemma inner_error: "inner a = Inl e \<Longrightarrow> e = SliceOutOfRange"
  by (auto simp: inner_def split: if_splits)

lemma split_error: "split s = Inl e \<Longrightarrow> \<exists>rest. e = Imbalanced rest"
  using split_loop_error [of "[]" s e] unfolding split_def by blast

text \<open>The aborts other than the missing arrow: Go panics.\<close>

definition is_panic :: "error \<Rightarrow> bool" where
  "is_panic e \<longleftrightarrow> (case e of NoArrow r \<Rightarrow> False | _ \<Rightarrow> True)"

lemma is_panic_simps [simp]:
  "is_panic (NoArrow r) = False" "is_panic (Imbalanced s) = True"
  "is_panic IndexOutOfRange = True" "is_panic SliceOutOfRange = True"
  by (simp_all add: is_panic_def)

lemma genMatch_errors:
  "(genMatch0 match v fail m toplevel = Inl e \<longrightarrow> is_panic e)"
  "(genMatchArg a v fail m n = Inl e1 \<longrightarrow> is_panic e1)"
  "(genMatchArgs as v fail m n = Inl e2 \<longrightarrow> is_panic e2)"
proof (induction match v fail m toplevel and a v fail m n and as v fail m n
    arbitrary: e and e1 and e2
    rule: genMatch0_genMatchArg_genMatchArgs.induct)
  case (1 match v fail m toplevel)
  show ?case
  proof
    assume err: "genMatch0 match v fail m toplevel = Inl e"
    show "is_panic e"
    proof (cases "match \<noteq> [] \<and> hd match = CHR ''('' \<and>
        (\<exists>body s. inner match = Inr body \<and> split body = Inr s \<and> s \<noteq> [])")
      case False
      with err show ?thesis
        by (auto simp: genMatch0.simps [of match] split: if_splits sum.splits option.splits
            dest: inner_error split_error)
    next
      case True
      then obtain body s where ne: "match \<noteq> []" and hd: "hd match = CHR ''(''"
        and b: "inner match = Inr body" and s: "split body = Inr s" and sne: "s \<noteq> []"
        by blast
      with err have "genMatchArgs (tl s) v fail m 0 = Inl e"
        by (auto simp: genMatch0.simps [of match] split: sum.splits)
      with "1.IH" [OF ne _ b s sne] hd show ?thesis by simp
    qed
  qed
next
  case (2 a v fail m argnum)
  show ?case
  proof
    assume err: "genMatchArg a v fail m argnum = Inl e1"
    show "is_panic e1"
    proof (cases "a = [] \<or> hd a = CHR ''<'' \<or> hd a = CHR ''['' \<or> hd a = CHR ''{''")
      case True
      with err show ?thesis
        by (auto simp: genMatchArg.simps [of a] split: if_splits sum.splits option.splits
            dest: inner_error)
    next
      case False
      with err have "genMatch0 a (v @ ''.Args['' @ itoa argnum @ '']'') fail m False = Inl e1"
        by (auto simp: genMatchArg.simps [of a] split: sum.splits)
      with "2.IH" False show ?thesis by simp
    qed
  qed
next
  case (3 v fail m argnum)
  then show ?case by simp
next
  case (4 a as v fail m argnum)
  show ?case
  proof
    assume err: "genMatchArgs (a # as) v fail m argnum = Inl e2"
    show "is_panic e2"
    proof (cases "genMatchArg a v fail m argnum")
      case (Inl x)
      with err "4.IH"(1) show ?thesis by simp
    next
      case (Inr r)
      obtain o1 m1 n1 where r: "r = (o1, m1, n1)" by (cases r) auto
      with Inr err have "genMatchArgs as v fail m1 n1 = Inl e2" by (auto split: sum.splits)
      with "4.IH"(2) [OF Inr [unfolded r] refl refl] show ?thesis by simp
    qed
  qed
qed

lemma genResult_errors:
  "(genResult0 result alloc toplevel = Inl e \<longrightarrow> is_panic e)"
  "(genResultArg a w nt alloc = Inl e1 \<longrightarrow> is_panic e1)"
  "(genResultArgs as w nt alloc = Inl e2 \<longrightarrow> is_panic e2)"
proof (induction result alloc toplevel and a w nt alloc and as w nt alloc
    arbitrary: e and e1 and e2
    rule: genResult0_genResultArg_genResultArgs.induct)
  case (1 result alloc toplevel)
  show ?case
  proof
    assume err: "genResult0 result alloc toplevel = Inl e"
    show "is_panic e"
    proof (cases "result \<noteq> [] \<and> hd result = CHR ''('' \<and>
        (\<exists>body s. inner result = Inr body \<and> split body = Inr s \<and> s \<noteq> [])")
      case False
      with err show ?thesis
        by (auto simp: genResult0.simps [of result] split: if_splits sum.splits
            dest: inner_error split_error)
    next
      case True
      then obtain body s where ne: "result \<noteq> []" and hd: "hd result = CHR ''(''"
        and b: "inner result = Inr body" and s: "split body = Inr s" and sne: "s \<noteq> []"
        by blast
      show ?thesis
      proof (cases toplevel)
        case top: True
        with err ne hd b s sne have "genResultArgs (tl s) ''v'' False alloc = Inl e"
          by (auto simp: genResult0.simps [of result] split: sum.splits)
        with "1.IH"(1) [OF ne _ b s sne top] hd show ?thesis by simp
      next
        case nontop: False
        with err ne hd b s sne
        have "genResultArgs (tl s) (''v'' @ itoa alloc) True (alloc + 1) = Inl e"
          by (auto simp: genResult0.simps [of result] split: sum.splits)
        with "1.IH"(2) [OF ne _ b s sne nontop] hd show ?thesis by simp
      qed
    qed
  qed
next
  case (2 a w nt alloc)
  show ?case
  proof
    assume err: "genResultArg a w nt alloc = Inl e1"
    show "is_panic e1"
    proof (cases "a = [] \<or> hd a = CHR ''<'' \<or> hd a = CHR ''['' \<or> hd a = CHR ''{''")
      case True
      with err show ?thesis
        by (auto simp: genResultArg.simps [of a] split: if_splits sum.splits dest: inner_error)
    next
      case False
      with err have "genResult0 a alloc False = Inl e1"
        by (auto simp: genResultArg.simps [of a] split: sum.splits)
      with "2.IH" False show ?thesis by simp
    qed
  qed
next
  case (3 w nt alloc)
  then show ?case by simp
next
  case (4 a as w nt alloc)
  show ?case
  proof
    assume err: "genResultArgs (a # as) w nt alloc = Inl e2"
    show "is_panic e2"
    proof (cases "genResultArg a w nt alloc")
      case (Inl x)
      with err "4.IH"(1) show ?thesis by simp
    next
      case (Inr r)
      obtain o1 nt1 n1 where r: "r = (o1, nt1, n1)" by (cases r) auto
      with Inr err have "genResultArgs as w nt1 n1 = Inl e2" by (auto split: sum.splits)
      with "4.IH"(2) [OF Inr [unfolded r] refl refl] show ?thesis by simp
    qed
  qed
qed

lemma gen_sides_error: "gen_sides rulenum lhs result = Inl e \<Longrightarrow> is_panic e"
  using genMatch_errors(1) genResult_errors(1)
  by (auto simp: gen_sides_def genMatch_def genResult_def Let_def
      split: sum.splits option.splits prod.splits)

text \<open>
  Claim C7.  Compiling one rule aborts with the no-arrow error (the spec's MalformedRule),
  naming the rule, if and only if the arrow \<^verbatim>\<open>->\<close> does not occur exactly once in the rule,
  that is if it is absent or occurs more than once; no other step of the rule's
  compilation produces that error.  When the arrow occurs exactly once the rule is cut
  into the segment before and the segment after it, and the compilation goes on with the
  two trimmed segments.
\<close>

theorem rule_aborts_iff_not_exactly_one_arrow:
  "((\<exists>x. gen_rule rulenum rule = Inl (NoArrow x)) \<longleftrightarrow> occurrences ''->'' rule \<noteq> 1) \<and>
   (gen_rule rulenum rule = Inl (NoArrow rule) \<longleftrightarrow> occurrences ''->'' rule \<noteq> 1) \<and>
   (occurrences ''->'' rule = 1 \<longrightarrow>
     (\<exists>l r. rule = l @ ''->'' @ r \<and>
        gen_rule rulenum rule =
          gen_sides rulenum (Trim l [CHR '' '', CHR 0x09])
            (Trim r [CHR '' '', CHR 0x09, CHR 0x0A])))"
proof (cases "occurrences ''->'' rule = 1")
  case True
  from Split_arrow_single [OF True] obtain l r where
    lr: "rule = l @ ''->'' @ r" "Split rule ''->'' = [l, r]"
    by blast
  then have run: "gen_rule rulenum rule =
      gen_sides rulenum (Trim l [CHR '' '', CHR 0x09]) (Trim r [CHR '' '', CHR 0x09, CHR 0x0A])"
    by (simp add: gen_rule_def)
  have "gen_rule rulenum rule \<noteq> Inl (NoArrow x)" for x
    using gen_sides_error [of rulenum "Trim l [CHR '' '', CHR 0x09]"
        "Trim r [CHR '' '', CHR 0x09, CHR 0x0A]" "NoArrow x"] run
    by auto
  with True lr(1) run show ?thesis by blast
next
  case False
  then have "length (Split rule ''->'') \<noteq> 2" by (simp add: Split_arrow_length)
  then have "gen_rule rulenum rule = Inl (NoArrow rule)" by (simp add: gen_rule_def)
  with False show ?thesis by auto
qed

text \<open>Witness for C7: a rule with one arrow, and the same rule without it.\<close>

theorem rule_aborts_iff_not_exactly_one_arrow_witness:
  "occurrences ''->'' ''(Add x y) -> (Add y x)'' = 1 \<and>
   (\<exists>l r. ''(Add x y) -> (Add y x)'' = l @ ''->'' @ r \<and>
      gen_rule 0 ''(Add x y) -> (Add y x)'' =
        gen_sides 0 (Trim l [CHR '' '', CHR 0x09]) (Trim r [CHR '' '', CHR 0x09, CHR 0x0A])) \<and>
   gen_rule 0 ''(Add x y) (Add y x)'' = Inl (NoArrow ''(Add x y) (Add y x)'')"
proof -
  have occ: "occurrences ''->'' ''(Add x y) -> (Add y x)'' = 1" by simp
  have occ0: "occurrences ''->'' ''(Add x y) (Add y x)'' \<noteq> 1" by simp
  from rule_aborts_iff_not_exactly_one_arrow [of 0 "''(Add x y) -> (Add y x)''"] occ
    rule_aborts_iff_not_exactly_one_arrow [of 0 "''(Add x y) (Add y x)''"] occ0
  show ?thesis by blast
qed

subsection \<open>The layout of the emitted dispatch\<close>

text \<open>
  The groups as the specification describes them: \<open>rule_lines\<close> are the non-empty
  stripped lines in file order, \<open>tag_of\<close> the group key of a line, \<open>tags\<close> the distinct
  keys in lexicographic order, \<open>rules_with_tag\<close> the rules of one key in file order, and
  \<open>first_rulenum lines j\<close> the number of rules in the groups before the \<open>j\<close>-th.
\<close>

definition rule_lines :: "string list \<Rightarrow> string list" where
  "rule_lines lines = filter (\<lambda>l. l \<noteq> []) (map strip_line lines)"

definition tag_of :: "string \<Rightarrow> string" where
  "tag_of line = drop 1 (hd (Split line '' ''))"

definition tags :: "string list \<Rightarrow> string list" where
  "tags lines = sort (remdups (map tag_of (rule_lines lines)))"

definition rules_with_tag :: "string list \<Rightarrow> string \<Rightarrow> string list" where
  "rules_with_tag lines op = filter (\<lambda>l. tag_of l = op) (rule_lines lines)"

definition first_rulenum :: "string list \<Rightarrow> nat \<Rightarrow> nat" where
  "first_rulenum lines j = length (concat (map (rules_with_tag lines) (take j (tags lines))))"

text \<open>
  \<open>rule_block k rule out\<close>: \<open>out\<close> is what the program writes for \<open>rule\<close> as rule number
  \<open>k\<close>, and it is laid out as the three comment lines, an opening brace, the match code
  with all its guards jumping to \<^verbatim>\<open>end<k>\<close>, the guard of the condition if there is one, the
  result code, \<^verbatim>\<open>return true\<close>, the closing brace and the label \<^verbatim>\<open>end<k>\<close>.
\<close>

definition rule_block :: "nat \<Rightarrow> string \<Rightarrow> string list \<Rightarrow> bool" where
  "rule_block k rule out \<longleftrightarrow>
    gen_rule k rule = Inr out \<and>
    (\<exists>match cond result mout rout.
       genMatch match (fail_block k) = Inr mout \<and>
       list_all (match_stmt match ''v'' (fail_block k)) mout \<and>
       genResult result = Inr rout \<and>
       out = [''// match: '' @ match @ ''\<newline>'', ''// cond: '' @ cond @ ''\<newline>'',
              ''// result: '' @ result @ ''\<newline>'', ''{\<newline>''] @
             mout @
             (if cond \<noteq> [] then [''if !('' @ cond @ '') '' @ fail_block k] else []) @
             rout @
             [''return true\<newline>'', ''}\<newline>'', ''end'' @ itoa k @ '':;\<newline>''])"

lemma rule_op_tag: "rule_op line = Inr op \<Longrightarrow> op = tag_of line"
  by (auto simp: rule_op_def tag_of_def Let_def split: if_splits)

lemma keys_append_rule:
  "fst ` set (append_rule oprules op line) = insert op (fst ` set oprules)"
  by (induction oprules op line rule: append_rule.induct) auto

lemma distinct_append_rule:
  "distinct (map fst oprules) \<Longrightarrow> distinct (map fst (append_rule oprules op line))"
proof (induction oprules op line rule: append_rule.induct)
  case (1 op line)
  then show ?case by simp
next
  case (2 k rs rest op line)
  then show ?case
    using keys_append_rule [of rest op line] by auto
qed

lemma lookup_append_rule:
  "lookup (append_rule oprules op line) k =
    (if k = op then lookup oprules op @ [line] else lookup oprules k)"
  by (induction oprules op line rule: append_rule.induct) (auto simp: lookup_def)

lemma read_rules_groups:
  assumes "read_rules lines oprules = Inr oprules'" and "distinct (map fst oprules)"
  shows "distinct (map fst oprules') \<and>
    set (map fst oprules') = set (map fst oprules) \<union> set (map tag_of (rule_lines lines)) \<and>
    (\<forall>k. lookup oprules' k = lookup oprules k @ rules_with_tag lines k)"
  using assms
proof (induction lines arbitrary: oprules)
  case Nil
  then show ?case by (simp add: rule_lines_def rules_with_tag_def)
next
  case (Cons l ls)
  show ?case
  proof (cases "strip_line l = []")
    case True
    with Cons.prems have "read_rules ls oprules = Inr oprules'" by simp
    from Cons.IH [OF this Cons.prems(2)] True show ?thesis
      by (simp add: rule_lines_def rules_with_tag_def)
  next
    case False
    with Cons.prems(1) obtain op where op: "rule_op (strip_line l) = Inr op"
      and rec: "read_rules ls (append_rule oprules op (strip_line l)) = Inr oprules'"
      by (auto simp: Let_def split: sum.splits)
    from rule_op_tag [OF op] have tag: "op = tag_of (strip_line l)" .
    from Cons.IH [OF rec distinct_append_rule [OF Cons.prems(2)]]
    have d: "distinct (map fst oprules')"
      and k: "set (map fst oprules') =
        set (map fst (append_rule oprules op (strip_line l))) \<union> set (map tag_of (rule_lines ls))"
      and g: "\<And>k. lookup oprules' k =
        lookup (append_rule oprules op (strip_line l)) k @ rules_with_tag ls k"
      by blast+
    have rl: "rule_lines (l # ls) = strip_line l # rule_lines ls"
      using False by (simp add: rule_lines_def)
    from k tag rl have "set (map fst oprules') =
        set (map fst oprules) \<union> set (map tag_of (rule_lines (l # ls)))"
      by (auto simp: keys_append_rule)
    moreover have "lookup oprules' k = lookup oprules k @ rules_with_tag (l # ls) k" for k
      using g [of k] tag rl by (simp add: lookup_append_rule rules_with_tag_def)
    ultimately show ?thesis using d by blast
  qed
qed

lemma read_rules_tags:
  assumes "read_rules lines [] = Inr oprules"
  shows "sort (map fst oprules) = tags lines" and "lookup oprules = rules_with_tag lines"
proof -
  from read_rules_groups [OF assms] have
    d: "distinct (map fst oprules)" and
    k: "set (map fst oprules) = set (map tag_of (rule_lines lines))" and
    g: "\<And>k. lookup oprules k = rules_with_tag lines k"
    by (simp_all add: lookup_def)
  have "sorted (sort (map fst oprules))" "distinct (sort (map fst oprules))"
    "set (sort (map fst oprules)) = set (map tag_of (rule_lines lines))"
    using d k by simp_all
  moreover have "sorted (tags lines)" "distinct (tags lines)"
    "set (tags lines) = set (map tag_of (rule_lines lines))"
    by (simp_all add: tags_def)
  ultimately show "sort (map fst oprules) = tags lines"
    using sorted_distinct_set_unique by metis
  from g show "lookup oprules = rules_with_tag lines" by (rule ext)
qed

lemma gen_sides_block:
  assumes "gen_sides k lhs result = Inr out"
  shows "\<exists>match cond mout rout.
       genMatch match (fail_block k) = Inr mout \<and>
       list_all (match_stmt match ''v'' (fail_block k)) mout \<and>
       genResult result = Inr rout \<and>
       out = [''// match: '' @ match @ ''\<newline>'', ''// cond: '' @ cond @ ''\<newline>'',
              ''// result: '' @ result @ ''\<newline>'', ''{\<newline>''] @
             mout @
             (if cond \<noteq> [] then [''if !('' @ cond @ '') '' @ fail_block k] else []) @
             rout @
             [''return true\<newline>'', ''}\<newline>'', ''end'' @ itoa k @ '':;\<newline>'']"
proof -
  obtain match cond where mc: "(match, cond) =
      (case Index lhs ''&&'' of
         Some i \<Rightarrow> (Trim (take i lhs) [CHR '' '', CHR 0x09],
                    Trim (drop (i + 2) lhs) [CHR '' '', CHR 0x09])
       | None \<Rightarrow> (lhs, []))"
    by (cases "Index lhs ''&&''") auto
  from assms mc [symmetric] obtain mout rout where
    m: "genMatch match (fail_block k) = Inr mout" and
    r: "genResult result = Inr rout" and
    out: "out = [''// match: '' @ match @ ''\<newline>'', ''// cond: '' @ cond @ ''\<newline>'',
              ''// result: '' @ result @ ''\<newline>'', ''{\<newline>''] @
             mout @
             (if cond \<noteq> [] then [''if !('' @ cond @ '') '' @ fail_block k] else []) @
             rout @
             [''return true\<newline>'', ''}\<newline>'', ''end'' @ itoa k @ '':;\<newline>'']"
    unfolding gen_sides_def by (auto simp: Let_def split: sum.splits)
  have "list_all (match_stmt match ''v'' (fail_block k)) mout"
  proof -
    from genMatch_run [OF m] obtain m' where
      "genMatch0 match ''v'' (fail_block k) Map.empty True = Inr (mout, m')"
      by blast
    from match_run_events [OF this] obtain es where
      es: "match_events match ''v'' (fail_block k) True = Inr es" and
      mout: "mout = thread (fail_block k) Map.empty es"
      by blast
    from rule_thread_ok [OF es] show ?thesis unfolding mout .
  qed
  with m r out show ?thesis by blast
qed

lemma gen_rule_block:
  assumes "gen_rule k rule = Inr out"
  shows "rule_block k rule out"
proof -
  from assms obtain lhs result where "gen_sides k lhs result = Inr out"
    by (auto simp: gen_rule_def Let_def split: if_splits)
  from gen_sides_block [OF this] assms show ?thesis
    unfolding rule_block_def by blast
qed

lemma gen_group_blocks:
  "gen_group rules n = Inr (out, n') \<Longrightarrow>
    n' = n + length rules \<and>
    (\<exists>outs. out = concat outs \<and>
       list_all2 (\<lambda>(k, rule) out. rule_block k rule out) (zip [n..<n + length rules] rules) outs)"
proof (induction rules arbitrary: n out)
  case Nil
  then show ?case by simp
next
  case (Cons rule rules)
  from Cons.prems obtain o1 o2 where
    r: "gen_rule n rule = Inr o1" and
    g: "gen_group rules (n + 1) = Inr (o2, n')" and
    out: "out = o1 @ o2"
    by (auto split: sum.splits)
  from Cons.IH [OF g] obtain outs where n': "n' = n + 1 + length rules" and
    outs: "o2 = concat outs"
      "list_all2 (\<lambda>(k, rule) out. rule_block k rule out)
        (zip [n + 1..<n + 1 + length rules] rules) outs"
    by blast
  have "n < n + length (rule # rules)" by simp
  from upt_conv_Cons [OF this]
  have "[n..<n + length (rule # rules)] = n # [n + 1..<n + 1 + length rules]"
    by simp
  with outs gen_rule_block [OF r]
  have "list_all2 (\<lambda>(k, rule) out. rule_block k rule out)
      (zip [n..<n + length (rule # rules)] (rule # rules)) (o1 # outs)"
    by simp
  moreover from out outs have "out = concat (o1 # outs)" by simp
  ultimately show ?case using n' by (intro conjI exI [of _ "o1 # outs"]) simp_all
qed

lemma gen_cases_blocks:
  "gen_cases ops f n = Inr (out, n') \<Longrightarrow>
    \<exists>blocks. length blocks = length ops \<and>
      out = concat (map2 (\<lambda>op b. (''case Op'' @ op @ '':\<newline>'') # b) ops blocks) \<and>
      (\<forall>j<length ops.
         gen_group (f (ops ! j)) (n + length (concat (map f (take j ops)))) =
           Inr (blocks ! j, n + length (concat (map f (take (Suc j) ops)))))"
proof (induction ops arbitrary: n out)
  case Nil
  then show ?case by simp
next
  case (Cons op ops)
  from Cons.prems obtain b n1 out' where
    g: "gen_group (f op) n = Inr (b, n1)" and
    c: "gen_cases ops f n1 = Inr (out', n')" and
    out: "out = (''case Op'' @ op @ '':\<newline>'') # b @ out'"
    by (auto split: sum.splits)
  from gen_group_blocks [OF g] have n1: "n1 = n + length (f op)" by simp
  from Cons.IH [OF c] obtain blocks where
    len: "length blocks = length ops" and
    out': "out' = concat (map2 (\<lambda>op b. (''case Op'' @ op @ '':\<newline>'') # b) ops blocks)" and
    each: "\<And>j. j < length ops \<Longrightarrow>
         gen_group (f (ops ! j)) (n1 + length (concat (map f (take j ops)))) =
           Inr (blocks ! j, n1 + length (concat (map f (take (Suc j) ops))))"
    by blast
  have "gen_group (f ((op # ops) ! j)) (n + length (concat (map f (take j (op # ops))))) =
           Inr ((b # blocks) ! j, n + length (concat (map f (take (Suc j) (op # ops)))))"
    if "j < length (op # ops)" for j
  proof (cases j)
    case 0
    with g n1 show ?thesis by simp
  next
    case (Suc i)
    with that have "i < length ops" by simp
    from each [OF this] n1 Suc show ?thesis by (simp add: add.assoc)
  qed
  moreover from len have "length (b # blocks) = length (op # ops)" by simp
  moreover from out out'
  have "out = concat (map2 (\<lambda>op b. (''case Op'' @ op @ '':\<newline>'') # b) (op # ops) (b # blocks))"
    by simp
  ultimately show ?case by blast
qed

text \<open>
  The order of the output.  When the program gets as far as its output, that output is
  \<^verbatim>\<open>switch v.Op {\<close>, then one \<^verbatim>\<open>case Op<tag>:\<close> for each distinct group tag, the tags in
  lexicographic order, each followed by the blocks of the rules of that tag in file
  order, numbered consecutively through all the groups, and then the closing brace of the
  switch and \<^verbatim>\<open>return false\<close>.  Each rule's block is laid out as \<open>rule_block\<close> says: the
  guards of its match code jump to the label that ends the block, and its result code is
  followed by \<^verbatim>\<open>return true\<close>.
\<close>

lemma switch_cases_sorted_rules_in_file_order:
  assumes "gen_switch lines = Inr out"
  shows "sorted (tags lines) \<and> distinct (tags lines) \<and>
    set (tags lines) = tag_of ` set (rule_lines lines) \<and>
    (\<exists>blocks. length blocks = length (tags lines) \<and>
       out = [''switch v.Op {\<newline>''] @
             concat (map2 (\<lambda>op b. (''case Op'' @ op @ '':\<newline>'') # b) (tags lines) blocks) @
             [''}\<newline>'', ''return false\<newline>'', ''}\<newline>''] \<and>
       (\<forall>j<length (tags lines).
          \<exists>outs. blocks ! j = concat outs \<and>
            list_all2 (\<lambda>(k, rule) out. rule_block k rule out)
              (zip [first_rulenum lines j..<first_rulenum lines (Suc j)]
                   (rules_with_tag lines (tags lines ! j)))
              outs))"
proof -
  from assms obtain oprules body n where
    rd: "read_rules lines [] = Inr oprules" and
    gc: "gen_cases (sort (map fst oprules)) (lookup oprules) 0 = Inr (body, n)" and
    out: "out = [''switch v.Op {\<newline>''] @ body @ [''}\<newline>'', ''return false\<newline>'', ''}\<newline>'']"
    by (auto simp: gen_switch_def split: sum.splits)
  from read_rules_tags [OF rd] gc
  have gc': "gen_cases (tags lines) (rules_with_tag lines) 0 = Inr (body, n)" by simp
  from gen_cases_blocks [OF gc'] obtain blocks where
    len: "length blocks = length (tags lines)" and
    body: "body = concat (map2 (\<lambda>op b. (''case Op'' @ op @ '':\<newline>'') # b) (tags lines) blocks)" and
    each: "\<And>j. j < length (tags lines) \<Longrightarrow>
         gen_group (rules_with_tag lines (tags lines ! j)) (first_rulenum lines j) =
           Inr (blocks ! j, first_rulenum lines (Suc j))"
    unfolding first_rulenum_def by auto
  have "\<exists>outs. blocks ! j = concat outs \<and>
            list_all2 (\<lambda>(k, rule) out. rule_block k rule out)
              (zip [first_rulenum lines j..<first_rulenum lines (Suc j)]
                   (rules_with_tag lines (tags lines ! j)))
              outs" if "j < length (tags lines)" for j
    using gen_group_blocks [OF each [OF that]] by auto
  moreover have "sorted (tags lines)" "distinct (tags lines)"
    "set (tags lines) = tag_of ` set (rule_lines lines)"
    by (simp_all add: tags_def)
  ultimately show ?thesis using len body out by blast
qed

text \<open>
  Three rules, the \<^verbatim>\<open>Sub\<close> rule first in the file: the \<^verbatim>\<open>Add\<close> case comes first in the
  output, with its two rules in file order.
\<close>

lemma switch_cases_sorted_rules_in_file_order_example:
  "gen_switch [''(Sub x y) -> (Add x (Neg y))'', ''(Add x x) -> x // twice'',
               ''(Add x y) -> (Add y x)''] =
     Inr [''switch v.Op {\<newline>'',
          ''case OpAdd:\<newline>'',
          ''// match: (Add x x)\<newline>'', ''// cond: \<newline>'', ''// result: x\<newline>'', ''{\<newline>'',
          ''x := v.Args[0]\<newline>'', ''if v.Args[1] != v.Args[0] {\<newline>goto end0\<newline>}\<newline>'',
          ''return true\<newline>'', ''}\<newline>'', ''end0:;\<newline>'',
          ''// match: (Add x y)\<newline>'', ''// cond: \<newline>'', ''// result: (Add y x)\<newline>'', ''{\<newline>'',
          ''x := v.Args[0]\<newline>'', ''y := v.Args[1]\<newline>'',
          ''v.Op = OpAdd\<newline>'', ''v.Aux = nil\<newline>'', ''v.Args = v.argstorage[:0]\<newline>'',
          ''v.AddArg(y)\<newline>'', ''v.AddArg(x)\<newline>'',
          ''return true\<newline>'', ''}\<newline>'', ''end1:;\<newline>'',
          ''case OpSub:\<newline>'',
          ''// match: (Sub x y)\<newline>'', ''// cond: \<newline>'', ''// result: (Add x (Neg y))\<newline>'',
          ''{\<newline>'',
          ''x := v.Args[0]\<newline>'', ''y := v.Args[1]\<newline>'',
          ''v.Op = OpAdd\<newline>'', ''v.Aux = nil\<newline>'', ''v.Args = v.argstorage[:0]\<newline>'',
          ''v.AddArg(x)\<newline>'', ''v0 := v.Block.NewValue(OpNeg, TypeInvalid, nil)\<newline>'',
          ''v0.AddArg(y)\<newline>'', ''v0.SetType()\<newline>'', ''v.AddArg(v0)\<newline>'',
          ''return true\<newline>'', ''}\<newline>'', ''end2:;\<newline>'',
          ''}\<newline>'', ''return false\<newline>'', ''}\<newline>''] \<and>
   tags [''(Sub x y) -> (Add x (Neg y))'', ''(Add x x) -> x // twice'',
         ''(Add x y) -> (Add y x)''] = [''Add'', ''Sub''] \<and>
   sorted (tags [''(Sub x y) -> (Add x (Neg y))'', ''(Add x x) -> x // twice'',
                 ''(Add x y) -> (Add y x)''])"
proof -
  let ?lines = "[''(Sub x y) -> (Add x (Neg y))'', ''(Add x x) -> x // twice'',
                 ''(Add x y) -> (Add y x)'']"
  have run: "gen_switch ?lines =
     Inr [''switch v.Op {\<newline>'',
          ''case OpAdd:\<newline>'',
          ''// match: (Add x x)\<newline>'', ''// cond: \<newline>'', ''// result: x\<newline>'', ''{\<newline>'',
          ''x := v.Args[0]\<newline>'', ''if v.Args[1] != v.Args[0] {\<newline>goto end0\<newline>}\<newline>'',
          ''return true\<newline>'', ''}\<newline>'', ''end0:;\<newline>'',
          ''// match: (Add x y)\<newline>'', ''// cond: \<newline>'', ''// result: (Add y x)\<newline>'', ''{\<newline>'',
          ''x := v.Args[0]\<newline>'', ''y := v.Args[1]\<newline>'',
          ''v.Op = OpAdd\<newline>'', ''v.Aux = nil\<newline>'', ''v.Args = v.argstorage[:0]\<newline>'',
          ''v.AddArg(y)\<newline>'', ''v.AddArg(x)\<newline>'',
          ''return true\<newline>'', ''}\<newline>'', ''end1:;\<newline>'',
          ''case OpSub:\<newline>'',
          ''// match: (Sub x y)\<newline>'', ''// cond: \<newline>'', ''// result: (Add x (Neg y))\<newline>'',
          ''{\<newline>'',
          ''x := v.Args[0]\<newline>'', ''y := v.Args[1]\<newline>'',
          ''v.Op = OpAdd\<newline>'', ''v.Aux = nil\<newline>'', ''v.Args = v.argstorage[:0]\<newline>'',
          ''v.AddArg(x)\<newline>'', ''v0 := v.Block.NewValue(OpNeg, TypeInvalid, nil)\<newline>'',
          ''v0.AddArg(y)\<newline>'', ''v0.SetType()\<newline>'', ''v.AddArg(v0)\<newline>'',
          ''return true\<newline>'', ''}\<newline>'', ''end2:;\<newline>'',
          ''}\<newline>'', ''return false\<newline>'', ''}\<newline>'']"
    by code_simp
  have tg: "tags ?lines = [''Add'', ''Sub'']" by code_simp
  from switch_cases_sorted_rules_in_file_order [OF run] have "sorted (tags ?lines)" by blast
  with run tg show ?thesis by blast
qed

subsection \<open>A rule without a guard\<close>

text \<open>
  \<open>label_unused k out\<close>: the chunks \<open>out\<close> define the label \<^verbatim>\<open>end<k>\<close> of rule \<open>k\<close>, and none
  of them jumps to it.
\<close>

definition label_unused :: "nat \<Rightarrow> string list \<Rightarrow> bool" where
  "label_unused k out \<longleftrightarrow>
    ''end'' @ itoa k @ '':;\<newline>'' \<in> set out \<and>
    \<not> list_ex (sublist (''goto end'' @ itoa k @ ''\<newline>'')) out"

text \<open>
  Claim C4 says that the emitted procedure dispatches first-match-wins: the first rule of
  the selected group whose guards all pass runs its result and returns true, and the
  procedure returns false when no rule applies.  The header of the source promises the same
  (lines 5 to 7: the generated code implements a function that returns true iff it did
  something; line 45: if multiple rules match, the first one in file order is selected).
  The program writes the label \<^verbatim>\<open>end<k>\<close> after the block of every rule (line 135), but
  \<^verbatim>\<open>goto end<k>\<close> only inside the guards of rule \<open>k\<close> (line 122).  A rule with no condition
  whose match expression is an operator applied to distinct variables has no guard: the
  operator of the top-level node is not tested, the \<^verbatim>\<open>case\<close> has selected it.  Its label
  is then defined and never used, which Go does not accept (``label defined and not
  used''), so the function that the program writes for a rule file with such a rule
  does not compile, and nothing is dispatched.  For the rule file with the one line
  \<^verbatim>\<open>(Add x y) -> (Add y x)\<close> the program writes the following text, in which the label
  \<^verbatim>\<open>end0\<close> is unused.
\<close>

theorem guard_free_rule_leaves_label_unused:
  "generate ''r.rules'' [''r.rules'', ''rw''] ''rw'' [''(Add x y) -> (Add y x)''] =
     Inr [''// autogenerated from r.rules: do not edit!\<newline>'',
          ''// generated with: go run rulegen/rulegen.go r.rules rw\<newline>'',
          ''package ssa\<newline>'',
          ''func rw(v *Value) bool {\<newline>'',
          ''switch v.Op {\<newline>'',
          ''case OpAdd:\<newline>'',
          ''// match: (Add x y)\<newline>'', ''// cond: \<newline>'', ''// result: (Add y x)\<newline>'',
          ''{\<newline>'',
          ''x := v.Args[0]\<newline>'', ''y := v.Args[1]\<newline>'',
          ''v.Op = OpAdd\<newline>'', ''v.Aux = nil\<newline>'', ''v.Args = v.argstorage[:0]\<newline>'',
          ''v.AddArg(y)\<newline>'', ''v.AddArg(x)\<newline>'',
          ''return true\<newline>'', ''}\<newline>'', ''end0:;\<newline>'',
          ''}\<newline>'', ''return false\<newline>'', ''}\<newline>''] \<and>
   label_unused 0
     [''// autogenerated from r.rules: do not edit!\<newline>'',
      ''// generated with: go run rulegen/rulegen.go r.rules rw\<newline>'',
      ''package ssa\<newline>'',
      ''func rw(v *Value) bool {\<newline>'',
      ''switch v.Op {\<newline>'',
      ''case OpAdd:\<newline>'',
      ''// match: (Add x y)\<newline>'', ''// cond: \<newline>'', ''// result: (Add y x)\<newline>'',
      ''{\<newline>'',
      ''x := v.Args[0]\<newline>'', ''y := v.Args[1]\<newline>'',
      ''v.Op = OpAdd\<newline>'', ''v.Aux = nil\<newline>'', ''v.Args = v.argstorage[:0]\<newline>'',
      ''v.AddArg(y)\<newline>'', ''v.AddArg(x)\<newline>'',
      ''return true\<newline>'', ''}\<newline>'', ''end0:;\<newline>'',
      ''}\<newline>'', ''return false\<newline>'', ''}\<newline>'']"
  by code_simp

subsection \<open>A token of delimiters only\<close>

text \<open>
  Claim C9 says that for an input with balanced delimiters the tokens, joined by single
  spaces, are the input up to white space.  The source sets \<^verbatim>\<open>nonsp\<close>, which its comment
  describes as ``found a non-space char so far'', only in the \<^verbatim>\<open>default\<close> case of its
  switch and so not for the eight delimiter characters; a last token that consists of
  delimiters only is therefore dropped.  On the balanced input \<^verbatim>\<open>x ()\<close> the tokenizer
  returns the one token \<^verbatim>\<open>x\<close>, and \<^verbatim>\<open>()\<close> is lost; so the pattern \<^verbatim>\<open>(Foo x ())\<close> compiles
  as \<^verbatim>\<open>(Foo x)\<close> does.
\<close>

theorem split_drops_delimiter_only_token:
  "depth ''x ()'' = 0 \<and> split ''x ()'' = Inr [''x''] \<and>
   genMatch ''(Foo x ())'' ''F'' = Inr [''x := v.Args[0]\<newline>'']"
  by code_simp

end
